theory Spec2Isabelle
  imports Main "HOL-Library.Word"
begin

unbundle bit_operations_syntax

section \<open>Bytes, characters and C strings\<close>

text \<open>
  A datagram is an array of \<open>uint8_t\<close>; the path, the request body, the response text
  and the contents of the two files are \<open>char\<close> arrays. The servers cast between the
  two (\<open>(const char*)p\<close>, \<open>(const uint8_t*)resp\<close>), which keeps the eight bits.
\<close>

type_synonym byte = "8 word"

definition char_of_u8 :: "byte \<Rightarrow> char" where
  "char_of_u8 b =
     Char (bit b 0) (bit b 1) (bit b 2) (bit b 3) (bit b 4) (bit b 5) (bit b 6) (bit b 7)"

definition u8_of_char :: "char \<Rightarrow> byte" where
  "u8_of_char c = of_char c"

text \<open>
  A C string ends at its first NUL: \<open>strlen\<close>, \<open>strcmp\<close>, \<open>strncat\<close> and the
  \<open>%s\<close> of \<open>snprintf\<close> see a \<open>char\<close> buffer up to there.
\<close>

definition cstr :: "string \<Rightarrow> string" where
  "cstr s = takeWhile (\<lambda>c. c \<noteq> CHR 0x00) s"

text \<open>\<open>snprintf(out, outsz, "%s", s)\<close> with \<open>outsz > 0\<close>: at most \<open>outsz - 1\<close> characters.\<close>

definition snprintf_s :: "nat \<Rightarrow> string \<Rightarrow> string" where
  "snprintf_s outsz s = take (outsz - 1) s"

section \<open>The CoAP codec: decoding\<close>

abbreviation (input) COAP_GET :: byte where "COAP_GET \<equiv> 0x01"
abbreviation (input) COAP_POST :: byte where "COAP_POST \<equiv> 0x02"
abbreviation (input) COAP_PUT :: byte where "COAP_PUT \<equiv> 0x03"
abbreviation (input) COAP_204_CHANGED :: byte where "COAP_204_CHANGED \<equiv> 0x44"
abbreviation (input) COAP_205_CONTENT :: byte where "COAP_205_CONTENT \<equiv> 0x45"
abbreviation (input) COAP_404_NOTFOUND :: byte where "COAP_404_NOTFOUND \<equiv> 0x84"
abbreviation (input) COAP_405_METHODNA :: byte where "COAP_405_METHODNA \<equiv> 0x85"
abbreviation (input) COAP_500_INTERR :: byte where "COAP_500_INTERR \<equiv> 0xA0"

text \<open>
  \<open>coap_req_t\<close>. The token is the \<open>tkl\<close> bytes that \<open>memcpy\<close> wrote, the path is the
  C string held by \<open>uri_path[128]\<close>, and \<open>payload\<close> is \<open>None\<close> for the NULL pointer;
  \<open>payload_len\<close> is the length of the list (0 for NULL).
\<close>

record coap_req =
  req_type :: byte
  req_tkl :: byte
  req_code :: byte
  req_mid :: "16 word"
  req_token :: "byte list"
  uri_path :: string
  payload :: "byte list option"

definition payload_len :: "coap_req \<Rightarrow> nat" where
  "payload_len r = (case payload r of None \<Rightarrow> 0 | Some bs \<Rightarrow> length bs)"

text \<open>
  \<open>coap_parse\<close> returns \<open>-1\<close> on a datagram it rejects (\<open>Rejected\<close>). \<open>Undefined\<close> marks
  the two places where the C code leaves defined behaviour: \<open>strncat\<close> writing past
  \<open>uri_path[128]\<close> in \<open>server.c\<close>, and the \<open>int\<close> sum of option deltas passing
  \<open>INT_MAX\<close>.
\<close>

datatype parse_failure = Rejected | Undefined

text \<open>
  \<open>read_nibble_ext\<close> (\<open>read_ext\<close> in the persistent server, the same code). The cursor
  \<open>*p\<close> is the list of bytes from \<open>*p\<close> to \<open>end\<close>; the result is the returned \<open>int\<close>
  and the cursor afterwards.
\<close>

definition read_nibble_ext :: "byte \<Rightarrow> byte list \<Rightarrow> int \<times> byte list" where
  "read_nibble_ext v p =
     (if v < 13 then (uint v, p)
      else if v = 13 then
        (case p of [] \<Rightarrow> (- 1, p) | b # p' \<Rightarrow> (13 + uint b, p'))
      else if v = 14 then
        (case p of
           b0 # b1 # p' \<Rightarrow> (269 + (push_bit 8 (uint b0) OR uint b1), p')
         | _ \<Rightarrow> (- 1, p))
      else (- 1, p))"

text \<open>
  The Uri-Path branch of \<open>server.c\<close> (lines 100 to 107): two \<open>strncat\<close> calls, the
  second bounded by the segment length only, not by the room left in \<open>uri_path\<close>.
\<close>

definition uri_path_strncat :: "string \<Rightarrow> byte list \<Rightarrow> parse_failure + string" where
  "uri_path_strncat path seg =
     (if 0 < length seg then
        (let path1 = (if path \<noteq> [] \<and> length path < 127 then path @ ''/'' else path);
             s = cstr (map char_of_u8 seg)
         in if 127 < length path1 + length s then Inl Undefined else Inr (path1 @ s))
      else Inr path)"

text \<open>\<open>append_uri_segment\<close> of the persistent server, which truncates instead.\<close>

definition append_uri_segment :: "string \<Rightarrow> nat \<Rightarrow> byte list \<Rightarrow> string" where
  "append_uri_segment dst dstsz seg =
     (let cur = length dst in
      if length seg = 0 \<or> dstsz = 0 then dst
      else
        (let dst1 = (if dst \<noteq> [] \<and> cur < dstsz - 1 then dst @ ''/'' else dst);
             cur1 = length dst1;
             copy = (if dstsz \<le> cur1 + length seg then dstsz - 1 - cur1 else length seg)
         in cstr (dst1 @ map char_of_u8 (take copy seg))))"

lemma read_nibble_ext_length: "length (snd (read_nibble_ext v p)) \<le> length p"
  by (auto simp: read_nibble_ext_def split: list.splits)

text \<open>
  The option loop of \<open>coap_parse\<close>, \<open>while (p < end && *p != 0xFF)\<close>. Its state is the
  path so far, \<open>last_opt\<close> and the cursor; \<open>app\<close> is what the variant does with a
  Uri-Path value. The result is the path and the cursor at the loop's exit.
\<close>

function options_loop ::
  "(string \<Rightarrow> byte list \<Rightarrow> parse_failure + string) \<Rightarrow> string \<Rightarrow> int \<Rightarrow> byte list
     \<Rightarrow> parse_failure + string \<times> byte list" where
  "options_loop app path last_opt p =
     (case p of
        [] \<Rightarrow> Inr (path, p)
      | byte # p1 \<Rightarrow>
          if byte = 0xFF then Inr (path, p)
          else
            (case read_nibble_ext (drop_bit 4 byte AND 0x0F) p1 of (delta, p2) \<Rightarrow>
             case read_nibble_ext (byte AND 0x0F) p2 of (optlen, p3) \<Rightarrow>
               if delta < 0 \<or> optlen < 0 then Inl Rejected
               else if 2147483647 < last_opt + delta then Inl Undefined
               else if length p3 < nat optlen then Inl Rejected
               else
                 (case (if last_opt + delta = 11 then app path (take (nat optlen) p3)
                        else Inr path) of
                    Inl e \<Rightarrow> Inl e
                  | Inr path' \<Rightarrow>
                      options_loop app path' (last_opt + delta) (drop (nat optlen) p3))))"
  by pat_completeness auto
termination
proof (relation "measure (\<lambda>(app, path, last_opt, p). length p)", goal_cases)
  case 1
  show ?case by simp
next
  case (2 app path last_opt p byte p1 delta p2 optlen p3)
  have "length p3 \<le> length p2"
    using read_nibble_ext_length [of "byte AND 0x0F" p2] 2(4) by (metis snd_conv)
  moreover have "length p2 \<le> length p1"
    using read_nibble_ext_length [of "drop_bit 4 byte AND 0x0F" p1] 2(3) by (metis snd_conv)
  ultimately show ?case using 2(1) by simp
qed

declare options_loop.simps [simp del]

text \<open>
  \<open>coap_parse\<close>, with the variant's Uri-Path step as a parameter: header, token, option
  loop, payload marker.
\<close>

definition coap_parse_with ::
  "(string \<Rightarrow> byte list \<Rightarrow> parse_failure + string) \<Rightarrow> byte list \<Rightarrow> parse_failure + coap_req" where
  "coap_parse_with app buf =
     (if length buf < 4 then Inl Rejected
      else
        (let ver = drop_bit 6 (buf ! 0) AND 0x03 in
         if ver \<noteq> 1 then Inl Rejected
         else
           (let ty = drop_bit 4 (buf ! 0) AND 0x03;
                tk = buf ! 0 AND 0x0F;
                co = buf ! 1;
                mi = push_bit 8 (ucast (buf ! 2)) OR ucast (buf ! 3)
            in if length buf < 4 + unat tk \<or> 8 < tk then Inl Rejected
               else
                 (case options_loop app [] 0 (drop (4 + unat tk) buf) of
                    Inl e \<Rightarrow> Inl e
                  | Inr (path, p) \<Rightarrow>
                      Inr \<lparr>req_type = ty, req_tkl = tk, req_code = co, req_mid = mi,
                           req_token = take (unat tk) (drop 4 buf), uri_path = path,
                           payload =
                             (case p of
                                [] \<Rightarrow> None
                              | b # p' \<Rightarrow> if b = 0xFF then Some p' else None)\<rparr>))))"

text \<open>\<open>coap_parse\<close> of \<open>server.c\<close>.\<close>

definition coap_parse :: "byte list \<Rightarrow> parse_failure + coap_req" where
  "coap_parse buf = coap_parse_with uri_path_strncat buf"

text \<open>\<open>coap_parse\<close> of \<open>server_persist_clean.c\<close>.\<close>

definition coap_parse_persist :: "byte list \<Rightarrow> parse_failure + coap_req" where
  "coap_parse_persist buf =
     coap_parse_with (\<lambda>path seg. Inr (append_uri_segment path 128 seg)) buf"

section \<open>The CoAP codec: encoding\<close>

abbreviation (input) COAP_VER :: byte where "COAP_VER \<equiv> 1"
abbreviation (input) COAP_CON :: byte where "COAP_CON \<equiv> 0"
abbreviation (input) COAP_NON :: byte where "COAP_NON \<equiv> 1"
abbreviation (input) COAP_ACK :: byte where "COAP_ACK \<equiv> 2"
abbreviation (input) OPT_URI_PATH :: int where "OPT_URI_PATH \<equiv> 11"
abbreviation (input) OPT_CONTENT_FORMAT :: int where "OPT_CONTENT_FORMAT \<equiv> 12"
abbreviation (input) CF_TEXT_PLAIN :: byte where "CF_TEXT_PLAIN \<equiv> 0"

text \<open>
  \<open>add_option\<close>, the same in both servers (the persistent one keeps \<open>vlen - 269\<close> in a
  \<open>size_t\<close> instead of an \<open>int\<close>). \<open>val\<close> is the \<open>vlen\<close> bytes behind the pointer. The
  result is the returned \<open>int\<close>, the bytes written at \<open>out\<close>, and \<open>*last\<close> afterwards.
\<close>

definition add_option :: "nat \<Rightarrow> int \<Rightarrow> int \<Rightarrow> byte list \<Rightarrow> int \<times> byte list \<times> int" where
  "add_option cap last_no number val =
     (if cap < 1 then (- 1, [], last_no)
      else
        (let delta = number - last_no;
             vlen = length val;
             (dl, dext) =
               (if delta < 13 then (word_of_int delta :: byte, [])
                else if delta < 269 then (13, [word_of_int (delta - 13)])
                else (14, [word_of_int (drop_bit 8 (delta - 269) AND 0xFF),
                           word_of_int ((delta - 269) AND 0xFF)]));
             (ll, lext) =
               (if vlen < 13 then (of_nat vlen :: byte, [])
                else if vlen < 269 then (13, [of_nat (vlen - 13)])
                else (14, [of_nat (drop_bit 8 (vlen - 269) AND 0xFF),
                           of_nat ((vlen - 269) AND 0xFF)]));
             need = 1 + length dext + length lext + vlen
         in if cap < need then (- 1, [], last_no)
            else (int need, [push_bit 4 dl OR ll] @ dext @ lext @ val, number)))"

text \<open>
  \<open>build_response\<close> of \<open>server.c\<close>. \<open>tok\<close> is the array behind the token pointer,
  \<open>payload\<close> is \<open>None\<close> for NULL and \<open>plen\<close> is the length of the list. The result is
  the returned length (0: nothing to send) and the bytes written to \<open>out\<close> by then.
\<close>

definition build_response ::
  "nat \<Rightarrow> byte \<Rightarrow> byte \<Rightarrow> byte list \<Rightarrow> 16 word \<Rightarrow> byte \<Rightarrow> byte list option
     \<Rightarrow> nat \<times> byte list" where
  "build_response cap rtype tkl tok mid code pl =
     (if cap < 4 + unat tkl then (0, [])
      else
        (let ty = (if rtype = COAP_CON then COAP_ACK else COAP_NON);
             hdr = [push_bit 6 COAP_VER OR push_bit 4 ty OR (tkl AND 0x0F), code,
                    ucast (drop_bit 8 mid), ucast (mid AND 0xFF)];
             out = hdr @ take (unat tkl) tok;
             pos = 4 + unat tkl
         in case add_option (cap - pos) 0 OPT_CONTENT_FORMAT [CF_TEXT_PLAIN] of
              (n, opt, last_no) \<Rightarrow>
                if n < 0 then (0, out)
                else
                  (case pl of
                     None \<Rightarrow> (pos + nat n, out @ opt)
                   | Some bs \<Rightarrow>
                       if 0 < length bs then
                         (if cap < pos + nat n + 1 + length bs then (0, out @ opt)
                          else (pos + nat n + 1 + length bs, out @ opt @ [0xFF] @ bs))
                       else (pos + nat n, out @ opt))))"

text \<open>\<open>build_resp\<close> of \<open>server_persist_clean.c\<close>: the same function under another name.\<close>

definition build_resp ::
  "nat \<Rightarrow> byte \<Rightarrow> byte \<Rightarrow> byte list \<Rightarrow> 16 word \<Rightarrow> byte \<Rightarrow> byte list option
     \<Rightarrow> nat \<times> byte list" where
  "build_resp cap rtype tkl tok mid code pl =
     (if cap < 4 + unat tkl then (0, [])
      else
        (let ty = (if rtype = COAP_CON then COAP_ACK else COAP_NON);
             hdr = [push_bit 6 COAP_VER OR push_bit 4 ty OR (tkl AND 0x0F), code,
                    ucast (drop_bit 8 mid), ucast (mid AND 0xFF)];
             out = hdr @ take (unat tkl) tok;
             pos = 4 + unat tkl
         in case add_option (cap - pos) 0 OPT_CONTENT_FORMAT [CF_TEXT_PLAIN] of
              (n, opt, last_no) \<Rightarrow>
                if n < 0 then (0, out)
                else
                  (case pl of
                     None \<Rightarrow> (pos + nat n, out @ opt)
                   | Some bs \<Rightarrow>
                       if 0 < length bs then
                         (if cap < pos + nat n + 1 + length bs then (0, out @ opt)
                          else (pos + nat n + 1 + length bs, out @ opt @ [0xFF] @ bs))
                       else (pos + nat n, out @ opt))))"

text \<open>
  The size of the complete response: header, token, the two bytes of the Content-Format
  option, and the marker with the payload when there is one.
\<close>

definition response_size :: "byte \<Rightarrow> byte list option \<Rightarrow> nat" where
  "response_size tkl pl =
     4 + unat tkl + 2 + (case pl of None \<Rightarrow> 0 | Some bs \<Rightarrow> if bs = [] then 0 else 1 + length bs)"

text \<open>
  The complete response as the wire format lays it out: the header byte (version 1, ACK
  for a confirmable request and NON otherwise, token length), code, message id, token, the
  Content-Format option (delta 12, length 1, value 0), and for a payload that is not empty
  the marker and the payload.
\<close>

definition response_message ::
  "byte \<Rightarrow> byte \<Rightarrow> byte list \<Rightarrow> 16 word \<Rightarrow> byte \<Rightarrow> byte list option \<Rightarrow> byte list" where
  "response_message rtype tkl tok mid code pl =
     [push_bit 6 COAP_VER OR push_bit 4 (if rtype = COAP_CON then COAP_ACK else COAP_NON)
        OR (tkl AND 0x0F), code, ucast (drop_bit 8 mid), ucast (mid AND 0xFF)]
     @ take (unat tkl) tok @ [0xC1, 0x00]
     @ (case pl of None \<Rightarrow> [] | Some bs \<Rightarrow> if bs = [] then [] else 0xFF # bs)"

section \<open>The Arduino client's request builder\<close>

text \<open>
  The lambda \<open>addOpt\<close> of \<open>coapmin::buildPost\<close>: one header byte, no extension bytes
  (its comment: delta and length below 13), then \<open>len\<close> bytes of the value. The result is
  the bytes written and \<open>last\<close> afterwards.
\<close>

definition addOpt :: "16 word \<Rightarrow> 16 word \<Rightarrow> byte list \<Rightarrow> byte \<Rightarrow> byte list \<times> 16 word" where
  "addOpt last_no number val len =
     (let delta = number - last_no
      in ((ucast (push_bit 4 delta) OR (len AND 0x0F)) # take (unat len) val, number))"

text \<open>
  \<open>buildPost\<close>. The three strings are C strings; a NULL path and an empty one take the
  same branch, so both are \<open>[]\<close>. \<open>strlen\<close> is narrowed to the \<open>uint8_t\<close> parameter of
  \<open>addOpt\<close>. The function has no capacity check; the result is the bytes written.
\<close>

definition buildPost :: "string \<Rightarrow> string \<Rightarrow> string \<Rightarrow> 16 word \<Rightarrow> byte list" where
  "buildPost path1 path2 json msgId =
     (let hdr = [push_bit 6 1 OR push_bit 4 COAP_CON OR 2, 0x02,
                 ucast (drop_bit 8 msgId), ucast (msgId AND 0xFF)];
          tok = [ucast (drop_bit 8 msgId), ucast (msgId AND 0xFF)];
          (o1, last1) =
            (if path1 \<noteq> [] then addOpt 0 11 (map u8_of_char path1) (of_nat (length path1))
             else ([], 0));
          (o2, last2) =
            (if path2 \<noteq> [] then addOpt last1 11 (map u8_of_char path2) (of_nat (length path2))
             else ([], last1));
          (o3, last3) = addOpt last2 12 [50] 1
      in hdr @ tok @ o1 @ o2 @ o3 @ [0xFF] @ map u8_of_char json)"

text \<open>A C string holds no NUL.\<close>

definition c_string :: "string \<Rightarrow> bool" where
  "c_string s = (CHR 0x00 \<notin> set s)"

text \<open>The path the client means: its non-empty segments joined with a slash.\<close>

definition joined_path :: "string \<Rightarrow> string \<Rightarrow> string" where
  "joined_path path1 path2 =
     (if path1 = [] then path2 else if path2 = [] then path1 else path1 @ ''/'' @ path2)"

section \<open>A request as the specification constructs it\<close>

text \<open>
  Modelled from the spec: the request builder of the round-trip property
  (\<open>build_request\<close>), which the repository does not have; its only builder is the
  client's \<open>buildPost\<close>. The Uri-Path options are written by the servers' own
  \<open>add_option\<close>, one option for each segment, each into room enough for it.
\<close>

fun uri_path_options :: "int \<Rightarrow> string list \<Rightarrow> byte list" where
  "uri_path_options last_no [] = []"
| "uri_path_options last_no (seg # segs) =
     (case add_option (5 + length seg) last_no OPT_URI_PATH (map u8_of_char seg) of
        (n, opt, last_no') \<Rightarrow> opt @ uri_path_options last_no' segs)"

text \<open>
  Modelled from the spec: the datagram of a request with a type, a code, a token, a
  message id, path segments and a payload, laid out as the wire format has it and as
  \<open>build_response\<close> lays out a response: the header byte with version 1, the type and
  the token length, then the code, the message id, the token, the options, and for a
  payload that is not empty the marker 0xFF and the payload.
\<close>

definition build_request ::
  "byte \<Rightarrow> byte \<Rightarrow> byte list \<Rightarrow> 16 word \<Rightarrow> string list \<Rightarrow> byte list \<Rightarrow> byte list" where
  "build_request ty code tok mid segs pl =
     [push_bit 6 COAP_VER OR push_bit 4 ty OR of_nat (length tok), code,
      ucast (drop_bit 8 mid), ucast (mid AND 0xFF)]
     @ tok @ uri_path_options 0 segs @ (if pl = [] then [] else 0xFF # pl)"

text \<open>The path of a request: its segments joined with a slash.\<close>

fun join_path :: "string list \<Rightarrow> string" where
  "join_path [] = []"
| "join_path [s] = s"
| "join_path (s # t # segs) = s @ ''/'' @ join_path (t # segs)"

text \<open>
  What \<open>coap_parse\<close> is meant to do with one more segment: the first one starts the
  path, a later one follows a slash.
\<close>

definition path_step :: "string \<Rightarrow> string \<Rightarrow> string" where
  "path_step p s = (if p = [] then s else p @ ''/'' @ s)"

section \<open>The dispatcher of the volatile server\<close>

text \<open>
  The request body as text: at most 1023 bytes of the payload, NUL-terminated, read as a
  C string.
\<close>

definition body_of :: "coap_req \<Rightarrow> string" where
  "body_of r =
     (case payload r of
        None \<Rightarrow> []
      | Some bs \<Rightarrow>
          if 0 < length bs then
            cstr (map char_of_u8 (take (if length bs < 1023 then length bs else 1023) bs))
          else [])"

text \<open>
  The branch of \<open>main\<close> in \<open>server.c\<close> that chooses the response. The state is
  \<open>g_state\<close>; the result is the new \<open>g_state\<close>, \<open>code\<close> and the text in \<open>resp\<close>
  (\<open>rlen\<close> is its length).
\<close>

definition dispatch :: "string \<Rightarrow> coap_req \<Rightarrow> string \<times> byte \<times> string" where
  "dispatch g_state r =
     (let method = req_code r; path = uri_path r; body = body_of r
      in if path = ''echo'' \<and> method = COAP_POST then
           (g_state, COAP_205_CONTENT, snprintf_s 1200 (''echo: '' @ body))
         else if path = ''sensor'' then
           (if method = COAP_PUT then
              (snprintf_s 1024 body, COAP_204_CHANGED, ''UPDATED'')
            else if method = COAP_GET then
              (g_state, COAP_205_CONTENT, snprintf_s 1200 g_state)
            else (g_state, COAP_405_METHODNA, ''METHOD_NOT_ALLOWED''))
         else (g_state, COAP_404_NOTFOUND, ''NOT_FOUND''))"

text \<open>The three entries of the routing table that read or write the state.\<close>

definition is_get_sensor :: "coap_req \<Rightarrow> bool" where
  "is_get_sensor r = (req_code r = COAP_GET \<and> uri_path r = ''sensor'')"

definition is_put_sensor :: "coap_req \<Rightarrow> bool" where
  "is_put_sensor r = (req_code r = COAP_PUT \<and> uri_path r = ''sensor'')"

definition is_post_echo :: "coap_req \<Rightarrow> bool" where
  "is_post_echo r = (req_code r = COAP_POST \<and> uri_path r = ''echo'')"

text \<open>The initial \<open>g_state\<close>.\<close>

definition g_state_init :: string where
  "g_state_init = ''NO_DATA''"

text \<open>Requests served one after the other: the final state and each response.\<close>

fun serve :: "string \<Rightarrow> coap_req list \<Rightarrow> string \<times> (byte \<times> string) list" where
  "serve g [] = (g, [])"
| "serve g (r # rs) =
     (case dispatch g r of (g', code, resp) \<Rightarrow>
      case serve g' rs of (g'', outs) \<Rightarrow> (g'', (code, resp) # outs))"

section \<open>The resource store of the persistent server\<close>

abbreviation (input) LF :: char where "LF \<equiv> CHR 0x0A"
abbreviation (input) CR :: char where "CR \<equiv> CHR 0x0D"

text \<open>
  The file system as the server sees it through its paths: the content found at each path,
  \<open>None\<close> where \<open>fopen(path, "r")\<close> returns NULL. Two paths may name one file; a
  write through one of them then shows at both (\<open>store\<close> below).
\<close>

type_synonym files = "string \<Rightarrow> string option"

text \<open>\<open>rstrip\<close>: drops the CR and LF characters at the end of a C string.\<close>

definition rstrip :: "string \<Rightarrow> string" where
  "rstrip s = rev (dropWhile (\<lambda>c. c = LF \<or> c = CR) (rev s))"

text \<open>
  \<open>fgets(line, n, f)\<close> on the unread rest of the file: NULL at end of file, else at most
  \<open>n - 1\<close> characters, stopping after a line feed. The result is the characters read and
  the rest.
\<close>

definition fgets :: "nat \<Rightarrow> string \<Rightarrow> (string \<times> string) option" where
  "fgets n s =
     (if s = [] then None
      else
        (let l = takeWhile (\<lambda>c. c \<noteq> LF) s;
             k = (if length l < length s then length l + 1 else length l);
             k' = (if k < n - 1 then k else n - 1)
         in Some (take k' s, drop k' s)))"

lemma fgets_shorter: "fgets 2048 s = Some (line, rest) \<Longrightarrow> length rest < length s"
  by (auto simp: fgets_def Let_def split: if_splits)

text \<open>
  The \<open>while (fgets(line, sizeof(line), f))\<close> loop of \<open>read_last_line\<close>: its state is
  \<open>last\<close> and the unread rest of the file.
\<close>

function last_line_loop :: "string \<Rightarrow> string \<Rightarrow> string" where
  "last_line_loop last_ln s =
     (case fgets 2048 s of
        None \<Rightarrow> last_ln
      | Some (line, rest) \<Rightarrow>
          (let line1 = rstrip (cstr line)
           in last_line_loop (if line1 \<noteq> [] then snprintf_s 2048 line1 else last_ln) rest))"
  by pat_completeness auto
termination
  by (relation "measure (\<lambda>(last_ln, s). length s)") (auto dest: fgets_shorter)

declare last_line_loop.simps [simp del]

text \<open>\<open>read_last_line\<close>: \<open>None\<close> for the return value 0, else the text written to \<open>out\<close>.\<close>

definition read_last_line :: "files \<Rightarrow> string \<Rightarrow> nat \<Rightarrow> string option" where
  "read_last_line fs path outsz =
     (case fs path of
        None \<Rightarrow> None
      | Some content \<Rightarrow>
          (let last_ln = last_line_loop [] content
           in if last_ln = [] then None else Some (snprintf_s outsz last_ln)))"

text \<open>\<open>strstr\<close>: the suffix of the haystack that starts at the first occurrence.\<close>

fun strstr :: "string \<Rightarrow> string \<Rightarrow> string option" where
  "strstr [] needle = (if needle = [] then Some [] else None)"
| "strstr (c # hay) needle =
     (if take (length needle) (c # hay) = needle then Some (c # hay) else strstr hay needle)"

text \<open>\<open>extract_state\<close>; \<open>out\<close> is the buffer before the call, left as it is when \<open>outsz\<close> is 0.\<close>

definition extract_state :: "string \<Rightarrow> string \<Rightarrow> nat \<Rightarrow> string" where
  "extract_state line out outsz =
     (if outsz = 0 then out
      else
        (case strstr line ''payload='' of
           Some p \<Rightarrow> snprintf_s outsz (drop (length ''payload='') p)
         | None \<Rightarrow> snprintf_s outsz line))"

text \<open>
  What one call of \<open>write_current_and_history\<close> meets outside the program: which of its
  library calls fail; how many bytes of a text still reach the file when its \<open>fprintf\<close>
  or its \<open>fclose\<close> fails (\<open>current_short\<close>, \<open>history_short\<close>); the text \<open>strftime\<close>
  leaves in \<open>iso\<close>; and which paths name one file (\<open>same_file env p q\<close>: \<open>p\<close> leads
  to the file that \<open>q\<close> leads to, as a link or another spelling of the path does).
\<close>

record write_env =
  fopen_current_fails :: bool
  fprintf_current_fails :: bool
  fclose_current_fails :: bool
  current_short :: nat
  fopen_history_fails :: bool
  fprintf_history_fails :: bool
  fclose_history_fails :: bool
  history_short :: nat
  iso :: string
  same_file :: "string \<Rightarrow> string \<Rightarrow> bool"

datatype io_call = Fopen string string | Fprintf string string | Fclose string

text \<open>The paths \<open>p\<close> and \<open>q\<close> name one file.\<close>

definition names_same_file :: "write_env \<Rightarrow> string \<Rightarrow> string \<Rightarrow> bool" where
  "names_same_file env p q = (p = q \<or> same_file env p q \<or> same_file env q p)"

text \<open>
  The files after the file at \<open>path\<close> got the content \<open>txt\<close>: every path that names this
  file shows it.
\<close>

definition store :: "write_env \<Rightarrow> files \<Rightarrow> string \<Rightarrow> string \<Rightarrow> files" where
  "store env fs path txt = (\<lambda>q. if names_same_file env q path then Some txt else fs q)"

text \<open>
  What reaches the file of a text handed to \<open>fprintf\<close>: \<open>fprintf\<close> fills the buffer of the
  stream and \<open>fclose\<close> writes it out, so all of the text when neither call failed, and its
  first \<open>short\<close> bytes otherwise.
\<close>

definition flushed :: "bool \<Rightarrow> nat \<Rightarrow> string \<Rightarrow> string" where
  "flushed failed short txt = (if failed then take short txt else txt)"

text \<open>
  \<open>write_current_and_history\<close>. The result is the returned \<open>int\<close>, the files afterwards
  and the library calls made on the two files, in order. \<open>fopen\<close> with \<open>"w"\<close> empties the
  file, with \<open>"a"\<close> it creates a missing one. The function looks at the results of
  \<open>fopen\<close> and \<open>fprintf\<close>; the result of \<open>fclose\<close> (lines 110 and 118) is dropped, so
  \<open>fclose_current_fails\<close> and \<open>fclose_history_fails\<close> change the files and not the
  returned value.
\<close>

definition write_current_and_history ::
  "write_env \<Rightarrow> files \<Rightarrow> string \<Rightarrow> string \<Rightarrow> string \<Rightarrow> int \<times> files \<times> io_call list" where
  "write_current_and_history env fs current history val =
     (let c1 = [Fopen current ''w'']
      in if fopen_current_fails env then (- 1, fs, c1)
         else
           (let fs1 = store env fs current [];
                line = val @ [LF];
                c2 = c1 @ [Fprintf current line]
            in if fprintf_current_fails env then
                 (- 1, store env fs1 current (flushed True (current_short env) line),
                  c2 @ [Fclose current])
               else
                 (let fs2 = store env fs1 current
                              (flushed (fclose_current_fails env) (current_short env) line);
                      c3 = c2 @ [Fclose current, Fopen history ''a'']
                  in if fopen_history_fails env then (- 1, fs2, c3)
                     else
                       (let old = (case fs2 history of None \<Rightarrow> [] | Some t \<Rightarrow> t);
                            fs3 = store env fs2 history old;
                            entry = iso env @ '' payload='' @ val @ [LF];
                            c4 = c3 @ [Fprintf history entry]
                        in if fprintf_history_fails env then
                             (- 1, store env fs3 history
                                     (old @ flushed True (history_short env) entry),
                              c4 @ [Fclose history])
                           else
                             (0, store env fs3 history
                                   (old @ flushed (fclose_history_fails env)
                                            (history_short env) entry),
                              c4 @ [Fclose history])))))"

section \<open>The dispatcher of the persistent server\<close>

text \<open>
  The branch of \<open>main\<close> in \<open>server_persist_clean.c\<close> that chooses the response. \<open>CURR\<close>
  and \<open>DATA\<close> are the two paths; the state is the files. This server has no 4.05 code.
\<close>

definition dispatch_persist ::
  "string \<Rightarrow> string \<Rightarrow> write_env \<Rightarrow> files \<Rightarrow> coap_req \<Rightarrow> files \<times> byte \<times> string" where
  "dispatch_persist CURR DATA env fs r =
     (let body = body_of r
      in if req_code r = COAP_GET \<and> uri_path r = ''sensor'' then
           (case read_last_line fs CURR 2048 of
              Some line \<Rightarrow> (fs, COAP_205_CONTENT, snprintf_s 1200 line)
            | None \<Rightarrow>
                (case read_last_line fs DATA 2048 of
                   Some line \<Rightarrow>
                     (fs, COAP_205_CONTENT, snprintf_s 1200 (extract_state line [] 2048))
                 | None \<Rightarrow> (fs, COAP_205_CONTENT, ''NO_DATA'')))
         else if req_code r = COAP_POST \<and> uri_path r = ''echo'' then
           (case write_current_and_history env fs CURR DATA body of
              (ret, fs', calls) \<Rightarrow>
                if ret = 0 then (fs', COAP_205_CONTENT, snprintf_s 1200 (''echo: '' @ body))
                else (fs', COAP_500_INTERR, ''WRITE_FAIL''))
         else if req_code r = COAP_PUT \<and> uri_path r = ''sensor'' then
           (case write_current_and_history env fs CURR DATA body of
              (ret, fs', calls) \<Rightarrow>
                if ret = 0 then (fs', COAP_204_CHANGED, ''UPDATED'')
                else (fs', COAP_500_INTERR, ''WRITE_FAIL''))
         else (fs, COAP_404_NOTFOUND, ''NOT_FOUND''))"

text \<open>Requests served one after the other, each with what its writes meet.\<close>

fun serve_persist ::
  "string \<Rightarrow> string \<Rightarrow> files \<Rightarrow> (write_env \<times> coap_req) list \<Rightarrow> files \<times> (byte \<times> string) list" where
  "serve_persist CURR DATA fs [] = (fs, [])"
| "serve_persist CURR DATA fs ((env, r) # rs) =
     (case dispatch_persist CURR DATA env fs r of (fs', code, resp) \<Rightarrow>
      case serve_persist CURR DATA fs' rs of (fs'', outs) \<Rightarrow> (fs'', (code, resp) # outs))"

section \<open>The store as the specification words it\<close>

text \<open>
  The lines of a text file: the runs of characters between line feeds; a last run with
  no line feed after it is a line when it is not empty.
\<close>

fun split_lines :: "string \<Rightarrow> string \<Rightarrow> string list" where
  "split_lines cur [] = (if cur = [] then [] else [cur])"
| "split_lines cur (c # s) =
     (if c = LF then cur # split_lines [] s else split_lines (cur @ [c]) s)"

definition lines_of :: "string \<Rightarrow> string list" where
  "lines_of doc = split_lines [] doc"

text \<open>
  The last non-empty line, after stripping the CR and LF characters at the end of each
  line: what \<open>read_last_line\<close> is meant to return.
\<close>

definition last_nonempty_line :: "string \<Rightarrow> string option" where
  "last_nonempty_line doc =
     (case filter (\<lambda>l. l \<noteq> []) (map rstrip (lines_of doc)) of
        [] \<Rightarrow> None
      | l # ls \<Rightarrow> Some (last (l # ls)))"

text \<open>
  A text file that \<open>read_last_line\<close> reads line by line: it has no NUL, and no line
  is longer than the 2047 characters that fit its buffer.
\<close>

definition text_file :: "string \<Rightarrow> bool" where
  "text_file doc = (c_string doc \<and> (\<forall>l \<in> set (lines_of doc). length l \<le> 2047))"

text \<open>The file at a path is absent or such a text file.\<close>

definition readable_text :: "files \<Rightarrow> string \<Rightarrow> bool" where
  "readable_text fs path = (case fs path of None \<Rightarrow> True | Some doc \<Rightarrow> text_file doc)"

text \<open>The last non-empty line stored at a path, if the file is there and has one.\<close>

definition stored_line :: "files \<Rightarrow> string \<Rightarrow> string option" where
  "stored_line fs path = (case fs path of None \<Rightarrow> None | Some doc \<Rightarrow> last_nonempty_line doc)"

text \<open>The needle stands in the haystack at position \<open>k\<close>.\<close>

definition occurs_at :: "string \<Rightarrow> string \<Rightarrow> nat \<Rightarrow> bool" where
  "occurs_at needle hay k =
     (k + length needle \<le> length hay \<and> take (length needle) (drop k hay) = needle)"

text \<open>
  A value that the persistent store can hold on one line: no line feed in it and no
  carriage return at its end.
\<close>

definition storable :: "string \<Rightarrow> bool" where
  "storable v = (LF \<notin> set v \<and> (v = [] \<or> last v \<noteq> CR))"

text \<open>
  The text of a timestamp in the format \<open>%Y-%m-%dT%H:%M:%SZ\<close>, as it fits \<open>iso[32]\<close>.
\<close>

definition timestamp_text :: "string \<Rightarrow> bool" where
  "timestamp_text s = (length s \<le> 31 \<and> (\<forall>c \<in> set s. c \<in> set ''0123456789-:TZ''))"

text \<open>
  A history file that a new entry can follow on a line of its own: absent, or a text file
  that is empty or ends with a line feed.
\<close>

definition appendable_log :: "files \<Rightarrow> string \<Rightarrow> bool" where
  "appendable_log fs path =
     (case fs path of
        None \<Rightarrow> True
      | Some doc \<Rightarrow> text_file doc \<and> (doc = [] \<or> last doc = LF))"

section \<open>Example inputs\<close>

text \<open>The default paths of the persistent server, and the environments of one write.\<close>

abbreviation default_current :: string where "default_current \<equiv> ''/opt/coap/current.txt''"

abbreviation default_data :: string where "default_data \<equiv> ''/opt/coap/data.txt''"

abbreviation no_failure :: write_env where
  "no_failure \<equiv> \<lparr>fopen_current_fails = False, fprintf_current_fails = False,
                  fclose_current_fails = False, current_short = 0,
                  fopen_history_fails = False, fprintf_history_fails = False,
                  fclose_history_fails = False, history_short = 0,
                  iso = ''2025-01-01T00:00:00Z'', same_file = (\<lambda>p q. False)\<rparr>"

abbreviation current_unwritable :: write_env where
  "current_unwritable \<equiv> \<lparr>fopen_current_fails = True, fprintf_current_fails = False,
                  fclose_current_fails = False, current_short = 0,
                  fopen_history_fails = False, fprintf_history_fails = False,
                  fclose_history_fails = False, history_short = 0,
                  iso = ''2025-01-01T00:00:00Z'', same_file = (\<lambda>p q. False)\<rparr>"

abbreviation history_unwritable :: write_env where
  "history_unwritable \<equiv> \<lparr>fopen_current_fails = False, fprintf_current_fails = False,
                  fclose_current_fails = False, current_short = 0,
                  fopen_history_fails = True, fprintf_history_fails = False,
                  fclose_history_fails = False, history_short = 0,
                  iso = ''2025-01-01T00:00:00Z'', same_file = (\<lambda>p q. False)\<rparr>"

text \<open>A full disk: both files open, the texts fit the buffers, and no byte is written out.\<close>

abbreviation disk_full :: write_env where
  "disk_full \<equiv> \<lparr>fopen_current_fails = False, fprintf_current_fails = False,
                  fclose_current_fails = True, current_short = 0,
                  fopen_history_fails = False, fprintf_history_fails = False,
                  fclose_history_fails = True, history_short = 0,
                  iso = ''2025-01-01T00:00:00Z'', same_file = (\<lambda>p q. False)\<rparr>"

text \<open>Another spelling of the default path of the current-state file.\<close>

abbreviation respelled_current :: string where
  "respelled_current \<equiv> ''/opt/coap/./current.txt''"

text \<open>No call fails, and the two spellings name one file.\<close>

abbreviation history_is_current :: write_env where
  "history_is_current \<equiv> \<lparr>fopen_current_fails = False, fprintf_current_fails = False,
                  fclose_current_fails = False, current_short = 0,
                  fopen_history_fails = False, fprintf_history_fails = False,
                  fclose_history_fails = False, history_short = 0,
                  iso = ''2025-01-01T00:00:00Z'',
                  same_file = (\<lambda>p q. p \<in> {default_current, respelled_current}
                                     \<and> q \<in> {default_current, respelled_current})\<rparr>"

text \<open>A decoded confirmable request with an empty token and message id 1.\<close>

abbreviation request :: "byte \<Rightarrow> string \<Rightarrow> byte list option \<Rightarrow> coap_req" where
  "request method path pl \<equiv>
     \<lparr>req_type = COAP_CON, req_tkl = 0, req_code = method, req_mid = 1, req_token = [],
      uri_path = path, payload = pl\<rparr>"

section \<open>Basic facts about bytes and C strings\<close>

lemma char_of_u8_of_char: "char_of_u8 (u8_of_char c) = c"
  by (cases c) (simp add: char_of_u8_def u8_of_char_def bit_simps)

lemma chars_of_bytes_of_chars: "map (char_of_u8 \<circ> u8_of_char) s = s"
  by (induction s) (simp_all add: char_of_u8_of_char)

lemma cstr_c_string: "c_string s \<Longrightarrow> cstr s = s"
  by (induction s) (auto simp: cstr_def c_string_def)

lemma c_string_append: "c_string (s @ t) \<longleftrightarrow> c_string s \<and> c_string t"
  by (auto simp: c_string_def)

lemma cstr_length: "length (cstr s) \<le> length s"
  by (simp add: cstr_def length_takeWhile_le)

lemma c_string_cstr: "c_string (cstr s)"
  by (auto simp: c_string_def cstr_def dest: set_takeWhileD)

lemma body_of_alt:
  "body_of r = (case payload r of None \<Rightarrow> [] | Some bs \<Rightarrow> cstr (map char_of_u8 (take 1023 bs)))"
proof (cases "payload r")
  case None
  then show ?thesis by (simp add: body_of_def)
next
  case (Some bs)
  have "take (if length bs < 1023 then length bs else 1023) bs = take 1023 bs" by simp
  then show ?thesis using Some by (simp add: body_of_def cstr_def)
qed

lemma body_of_length: "length (body_of r) \<le> 1023"
proof (cases "payload r")
  case None
  then show ?thesis by (simp add: body_of_alt)
next
  case (Some bs)
  have "length (cstr (map char_of_u8 (take 1023 bs))) \<le> length (map char_of_u8 (take 1023 bs))"
    by (rule cstr_length)
  then show ?thesis using Some by (simp add: body_of_alt)
qed

lemma body_of_c_string: "c_string (body_of r)"
proof (cases "payload r")
  case None
  then show ?thesis by (simp add: body_of_alt c_string_def)
next
  case (Some bs)
  then show ?thesis by (simp add: body_of_alt c_string_cstr)
qed

section \<open>Rejected datagrams\<close>

text \<open>
  C8. \<open>coap_parse\<close> rejects (returns \<open>-1\<close>, no request) every buffer shorter than 4
  bytes, and every buffer whose declared token length, the low nibble of byte 0, is more
  than 8 or more than the bytes that follow the header; so a declared token length of 9 is
  always rejected. Both servers.
\<close>

theorem coap_parse_rejects_short_or_bad_token:
  assumes "length buf < 4 \<or> 8 < unat (buf ! 0 AND 0x0F)
           \<or> length buf - 4 < unat (buf ! 0 AND 0x0F)"
  shows "coap_parse buf = Inl Rejected \<and> coap_parse_persist buf = Inl Rejected"
proof -
  have "coap_parse_with app buf = Inl Rejected" for app
  proof (cases "length buf < 4")
    case True
    then show ?thesis by (simp add: coap_parse_with_def)
  next
    case False
    with assms have "length buf < 4 + unat (buf ! 0 AND 0x0F) \<or> 8 < buf ! 0 AND 0x0F"
      by (auto simp: word_less_nat_alt)
    then show ?thesis by (auto simp: coap_parse_with_def Let_def)
  qed
  then show ?thesis by (simp add: coap_parse_def coap_parse_persist_def)
qed

theorem coap_parse_rejects_short_or_bad_token_witness:
  "(8 < unat ((0x49 :: byte) AND 0x0F))
   \<and> coap_parse [0x49, 0x01, 0x00, 0x07, 1, 2, 3, 4, 5, 6, 7, 8, 9] = Inl Rejected
   \<and> coap_parse_persist [0x49, 0x01, 0x00, 0x07, 1, 2, 3, 4, 5, 6, 7, 8, 9] = Inl Rejected
   \<and> coap_parse [0x40, 0x01, 0x00] = Inl Rejected"
  using coap_parse_rejects_short_or_bad_token [of "[0x49, 0x01, 0x00, 0x07, 1, 2, 3, 4, 5, 6, 7, 8, 9]"]
    coap_parse_rejects_short_or_bad_token [of "[0x40, 0x01, 0x00]"]
  by simp

section \<open>The payload marker as the last byte\<close>

lemma read_nibble_ext_append:
  "read_nibble_ext v p = (d, p') \<Longrightarrow> 0 \<le> d \<Longrightarrow> read_nibble_ext v (p @ s) = (d, p' @ s)"
  by (auto simp: read_nibble_ext_def split: if_splits list.splits)

lemma options_loop_exit:
  "options_loop app path last_opt p = Inr (path', q) \<Longrightarrow> q = [] \<or> (\<exists>q'. q = 0xFF # q')"
proof (induction app path last_opt p rule: options_loop.induct)
  case (1 app path last_opt p)
  show ?case
  proof (cases p)
    case Nil
    with 1(2) show ?thesis by (simp add: options_loop.simps)
  next
    case (Cons byte p1)
    show ?thesis
    proof (cases "byte = 0xFF")
      case True
      with 1(2) Cons show ?thesis by (auto simp add: options_loop.simps)
    next
      case False
      obtain delta p2 where d: "read_nibble_ext (drop_bit 4 byte AND 0x0F) p1 = (delta, p2)"
        by (cases "read_nibble_ext (drop_bit 4 byte AND 0x0F) p1")
      obtain optlen p3 where l: "read_nibble_ext (byte AND 0x0F) p2 = (optlen, p3)"
        by (cases "read_nibble_ext (byte AND 0x0F) p2")
      note IH = 1(1) [OF Cons False d [symmetric] l [symmetric]]
      from 1(2) Cons False d l show ?thesis
        apply (subst (asm) options_loop.simps)
        apply (simp split: if_splits sum.splits)
        using IH
         apply auto
        done
    qed
  qed
qed

lemma options_loop_marker_at_end:
  "options_loop app path last_opt p = Inr (path', []) \<Longrightarrow>
   options_loop app path last_opt (p @ [0xFF]) = Inr (path', [0xFF])"
proof (induction app path last_opt p rule: options_loop.induct)
  case (1 app path last_opt p)
  show ?case
  proof (cases p)
    case Nil
    with 1(2) show ?thesis by (simp add: options_loop.simps)
  next
    case (Cons byte p1)
    show ?thesis
    proof (cases "byte = 0xFF")
      case True
      with 1(2) Cons show ?thesis by (simp add: options_loop.simps)
    next
      case False
      obtain delta p2 where d: "read_nibble_ext (drop_bit 4 byte AND 0x0F) p1 = (delta, p2)"
        by (cases "read_nibble_ext (drop_bit 4 byte AND 0x0F) p1")
      obtain optlen p3 where l: "read_nibble_ext (byte AND 0x0F) p2 = (optlen, p3)"
        by (cases "read_nibble_ext (byte AND 0x0F) p2")
      note IH = 1(1) [OF Cons False d [symmetric] l [symmetric]]
      from 1(2) Cons False d l show ?thesis
        apply (subst (asm) options_loop.simps)
        apply (subst options_loop.simps)
        apply (simp split: if_splits sum.splits add: read_nibble_ext_append)
        using IH
         apply auto
        done
    qed
  qed
qed

lemma coap_parse_with_marker_at_end:
  assumes "coap_parse_with app m = Inr r" and "payload r = None"
  shows "coap_parse_with app (m @ [0xFF]) = Inr (r\<lparr>payload := Some []\<rparr>)"
proof -
  let ?tk = "m ! 0 AND 0x0F"
  from assms(1) have len: "4 \<le> length m" and tk: "4 + unat ?tk \<le> length m"
    by (auto simp: coap_parse_with_def Let_def split: if_splits)
  from assms(1) obtain path p where
    loop: "options_loop app [] 0 (drop (4 + unat ?tk) m) = Inr (path, p)"
    by (auto simp: coap_parse_with_def Let_def split: if_splits sum.splits)
  from options_loop_exit [OF loop] assms loop have "p = []"
    by (auto simp: coap_parse_with_def Let_def split: if_splits)
  with loop have "options_loop app [] 0 (drop (4 + unat ?tk) m @ [0xFF]) = Inr (path, [0xFF])"
    by (simp add: options_loop_marker_at_end)
  moreover have "(m @ [0xFF]) ! 0 = m ! 0" "(m @ [0xFF]) ! 1 = m ! 1"
    "(m @ [0xFF]) ! 2 = m ! 2" "(m @ [0xFF]) ! 3 = m ! 3"
    using len by (auto simp: nth_append)
  ultimately show ?thesis
    using assms loop len tk \<open>p = []\<close>
    by (auto simp: coap_parse_with_def Let_def split: if_splits)
qed

lemma coap_parse_with_token_then_marker:
  assumes "4 \<le> length m" "drop_bit 6 (m ! 0) AND 0x03 = 1"
    and "length m = 4 + unat (m ! 0 AND 0x0F)" "m ! 0 AND 0x0F \<le> 8"
  shows "\<exists>r. coap_parse_with app (m @ [0xFF]) = Inr r \<and> payload r = Some []"
proof -
  have n: "(m @ [0xFF]) ! 0 = m ! 0" using assms(1) by (cases m) simp_all
  have d: "drop (4 + unat (m ! 0 AND 0x0F)) (m @ [0xFF]) = [0xFF]"
    using assms(3) by simp
  have l: "\<not> length (m @ [0xFF]) < 4 + unat (m ! 0 AND 0x0F)" using assms(3) by simp
  have loop: "options_loop app [] 0 (drop (4 + unat (m ! 0 AND 0x0F)) (m @ [0xFF]))
      = Inr ([], [0xFF])"
    unfolding d by (simp add: options_loop.simps)
  show ?thesis
    using assms(2,4) l
    by (simp add: coap_parse_with_def Let_def n loop not_less del: drop_append)
qed

text \<open>
  C9. A buffer that decodes through its options to the end, with one more byte 0xFF
  after it: the loop stops at that byte as the payload marker, \<open>coap_parse\<close> succeeds, and
  the payload is the empty rest of the buffer, of length 0 (not NULL, and not an error).
  Both servers. Such buffers exist: a header with version 1 and a token of the declared
  length of at most 8 bytes, followed by the marker alone, is decoded by both servers with
  the empty payload.
\<close>

theorem marker_at_end_is_empty_payload:
  "(coap_parse m = Inr r \<and> payload r = None \<longrightarrow>
      coap_parse (m @ [0xFF]) = Inr (r\<lparr>payload := Some []\<rparr>)
      \<and> payload_len (r\<lparr>payload := Some []\<rparr>) = 0)
   \<and> (coap_parse_persist m = Inr r \<and> payload r = None \<longrightarrow>
      coap_parse_persist (m @ [0xFF]) = Inr (r\<lparr>payload := Some []\<rparr>)
      \<and> payload_len (r\<lparr>payload := Some []\<rparr>) = 0)
   \<and> (4 \<le> length h \<and> drop_bit 6 (h ! 0) AND 0x03 = 1
        \<and> length h = 4 + unat (h ! 0 AND 0x0F) \<and> h ! 0 AND 0x0F \<le> 8 \<longrightarrow>
      (\<exists>r1. coap_parse (h @ [0xFF]) = Inr r1 \<and> payload r1 = Some [] \<and> payload_len r1 = 0)
      \<and> (\<exists>r2. coap_parse_persist (h @ [0xFF]) = Inr r2 \<and> payload r2 = Some []
             \<and> payload_len r2 = 0))"
  using coap_parse_with_token_then_marker [of h uri_path_strncat]
    coap_parse_with_token_then_marker [of h "\<lambda>path seg. Inr (append_uri_segment path 128 seg)"]
  by (auto simp add: coap_parse_def coap_parse_persist_def coap_parse_with_marker_at_end
      payload_len_def)

theorem marker_at_end_is_empty_payload_witness:
  "coap_parse [0x40, 0x01, 0x12, 0x34, 0xB6, 0x73, 0x65, 0x6E, 0x73, 0x6F, 0x72]
     = Inr \<lparr>req_type = 0, req_tkl = 0, req_code = COAP_GET, req_mid = 0x1234, req_token = [],
            uri_path = ''sensor'', payload = None\<rparr>
   \<and> coap_parse [0x40, 0x01, 0x12, 0x34, 0xB6, 0x73, 0x65, 0x6E, 0x73, 0x6F, 0x72, 0xFF]
     = Inr \<lparr>req_type = 0, req_tkl = 0, req_code = COAP_GET, req_mid = 0x1234, req_token = [],
            uri_path = ''sensor'', payload = Some []\<rparr>
   \<and> coap_parse_persist [0x40, 0x01, 0x12, 0x34, 0xB6, 0x73, 0x65, 0x6E, 0x73, 0x6F, 0x72]
     = Inr \<lparr>req_type = 0, req_tkl = 0, req_code = COAP_GET, req_mid = 0x1234, req_token = [],
            uri_path = ''sensor'', payload = None\<rparr>
   \<and> coap_parse_persist [0x40, 0x01, 0x12, 0x34, 0xB6, 0x73, 0x65, 0x6E, 0x73, 0x6F, 0x72, 0xFF]
     = Inr \<lparr>req_type = 0, req_tkl = 0, req_code = COAP_GET, req_mid = 0x1234, req_token = [],
            uri_path = ''sensor'', payload = Some []\<rparr>
   \<and> (\<exists>r1. coap_parse [0x52, 0x03, 0x00, 0x07, 0xAA, 0xBB, 0xFF] = Inr r1
          \<and> payload r1 = Some [] \<and> payload_len r1 = 0)
   \<and> (\<exists>r2. coap_parse_persist [0x52, 0x03, 0x00, 0x07, 0xAA, 0xBB, 0xFF] = Inr r2
          \<and> payload r2 = Some [] \<and> payload_len r2 = 0)"
proof -
  let ?m = "[0x40, 0x01, 0x12, 0x34, 0xB6, 0x73, 0x65, 0x6E, 0x73, 0x6F, 0x72] :: byte list"
  let ?h = "[0x52, 0x03, 0x00, 0x07, 0xAA, 0xBB] :: byte list"
  let ?r = "\<lparr>req_type = 0, req_tkl = 0, req_code = COAP_GET, req_mid = 0x1234, req_token = [],
            uri_path = ''sensor'', payload = None\<rparr>"
  have p: "coap_parse ?m = Inr ?r"
    by (simp add: coap_parse_def coap_parse_with_def options_loop.simps read_nibble_ext_def
        uri_path_strncat_def cstr_def char_of_u8_def)
  have q: "coap_parse_persist ?m = Inr ?r"
    by (simp add: coap_parse_persist_def coap_parse_with_def options_loop.simps
        read_nibble_ext_def append_uri_segment_def cstr_def char_of_u8_def)
  have h: "4 \<le> length ?h \<and> drop_bit 6 (?h ! 0) AND 0x03 = 1
        \<and> length ?h = 4 + unat (?h ! 0 AND 0x0F) \<and> ?h ! 0 AND 0x0F \<le> 8"
    by simp
  show ?thesis
    using p q h marker_at_end_is_empty_payload [of ?m ?r ?h] by simp
qed

section \<open>Option nibbles: encoder against decoder\<close>

lemma nibbles_hi:
  fixes a b :: byte
  assumes "a < 16" "b < 16"
  shows "drop_bit 4 (push_bit 4 a OR b) AND 0x0F = a"
proof -
  have a: "take_bit 4 a = a" using less_mask_eq [of a 4] assms(1) by (simp add: take_bit_eq_mask)
  have b: "take_bit 4 b = b" using less_mask_eq [of b 4] assms(2) by (simp add: take_bit_eq_mask)
  have m: "(0x0F :: byte) = mask 4" by (simp add: mask_eq_exp_minus_1)
  have "drop_bit 4 (push_bit 4 a OR take_bit 4 b) AND mask 4 = take_bit 4 a"
    by (rule bit_word_eqI) (auto simp: bit_simps)
  then show ?thesis by (simp add: a b m)
qed

lemma nibbles_lo:
  fixes a b :: byte
  assumes "b < 16"
  shows "(push_bit 4 a OR b) AND 0x0F = b"
proof -
  have b: "take_bit 4 b = b" using less_mask_eq [of b 4] assms by (simp add: take_bit_eq_mask)
  have m: "(0x0F :: byte) = mask 4" by (simp add: mask_eq_exp_minus_1)
  have "(push_bit 4 a OR take_bit 4 b) AND mask 4 = take_bit 4 b"
    by (rule bit_word_eqI) (auto simp: bit_simps)
  then show ?thesis by (simp add: b m)
qed

lemma split16_int:
  fixes D :: int
  assumes "0 \<le> D" "D < 65536"
  shows "push_bit 8 (drop_bit 8 D AND 0xFF) OR (D AND 0xFF) = D"
proof -
  have t: "take_bit 16 D = D" using assms by (simp add: take_bit_int_eq_self)
  have m: "(0xFF :: int) = mask 8" by (simp add: mask_eq_exp_minus_1)
  have "push_bit 8 (drop_bit 8 (take_bit 16 D) AND mask 8) OR (take_bit 16 D AND mask 8) = take_bit 16 D"
    by (rule bit_eqI) (auto simp: bit_simps)
  then show ?thesis by (simp add: t m)
qed

lemma uint_byte_and: "uint (word_of_int (x AND 0xFF) :: byte) = x AND 0xFF"
proof -
  have m: "(0xFF :: int) = mask 8" by (simp add: mask_eq_exp_minus_1)
  show ?thesis unfolding m by (simp add: uint_word_of_int_eq take_bit_eq_mask)
qed

lemma uint_byte_small: "0 \<le> x \<Longrightarrow> x < 256 \<Longrightarrow> uint (word_of_int x :: byte) = x"
  by (simp add: uint_word_of_int_eq take_bit_int_eq_self)

lemma uint_byte_small_nat: "x < 256 \<Longrightarrow> uint (of_nat x :: byte) = int x"
  using uint_byte_small [of "int x"] by simp

lemma and_255_less: "(x :: nat) AND 0xFF < 256"
proof -
  have m: "(0xFF :: nat) = mask 8" by (simp add: mask_eq_exp_minus_1)
  show ?thesis unfolding m using take_bit_nat_less_exp [of 8 x]
    by (simp flip: take_bit_eq_mask)
qed

lemma encode_delta_decodes:
  fixes d :: int
  assumes "0 \<le> d" "d \<le> 65804"
  defines "e \<equiv> (if d < 13 then (word_of_int d :: byte, [] :: byte list)
                else if d < 269 then (13, [word_of_int (d - 13)])
                else (14, [word_of_int (drop_bit 8 (d - 269) AND 0xFF),
                           word_of_int ((d - 269) AND 0xFF)]))"
  shows "fst e < 16 \<and> read_nibble_ext (fst e) (snd e @ p) = (d, p)"
proof -
  consider "d < 13" | "13 \<le> d" "d < 269" | "269 \<le> d" by linarith
  then show ?thesis
  proof cases
    case 1
    define w :: byte where "w = word_of_int d"
    have e: "e = (w, [])" using 1 by (simp add: e_def w_def)
    have u: "uint w = d" unfolding w_def by (rule uint_byte_small) (use 1 assms(1) in simp_all)
    then have "w < 13" using 1 by (simp add: word_less_def)
    moreover from this have "w < 16" by (simp add: word_less_def)
    ultimately show ?thesis unfolding e using u by (simp add: read_nibble_ext_def)
  next
    case 2
    define w :: byte where "w = word_of_int (d - 13)"
    have e: "e = (13, [w])" using 2 by (simp add: e_def w_def)
    have u: "uint w = d - 13" unfolding w_def by (rule uint_byte_small) (use 2 in simp_all)
    show ?thesis unfolding e using u by (simp add: read_nibble_ext_def)
  next
    case 3
    define w0 :: byte where "w0 = word_of_int (drop_bit 8 (d - 269) AND 0xFF)"
    define w1 :: byte where "w1 = word_of_int ((d - 269) AND 0xFF)"
    have e: "e = (14, [w0, w1])" using 3 by (simp add: e_def w0_def w1_def)
    have u0: "uint w0 = drop_bit 8 (d - 269) AND 0xFF" unfolding w0_def by (rule uint_byte_and)
    have u1: "uint w1 = (d - 269) AND 0xFF" unfolding w1_def by (rule uint_byte_and)
    have "push_bit 8 (drop_bit 8 (d - 269) AND 0xFF) OR ((d - 269) AND 0xFF) = d - 269"
      by (rule split16_int) (use 3 assms(2) in simp_all)
    then have "push_bit 8 (uint w0) OR uint w1 = d - 269"
      by (simp only: u0 u1)
    then show ?thesis unfolding e by (simp add: read_nibble_ext_def)
  qed
qed

lemma encode_length_decodes:
  fixes vlen :: nat
  assumes "vlen \<le> 65804"
  defines "e \<equiv> (if vlen < 13 then (of_nat vlen :: byte, [] :: byte list)
                else if vlen < 269 then (13, [of_nat (vlen - 13)])
                else (14, [of_nat (drop_bit 8 (vlen - 269) AND 0xFF),
                           of_nat ((vlen - 269) AND 0xFF)]))"
  shows "fst e < 16 \<and> read_nibble_ext (fst e) (snd e @ p) = (int vlen, p)"
proof -
  consider "vlen < 13" | "13 \<le> vlen" "vlen < 269" | "269 \<le> vlen" by linarith
  then show ?thesis
  proof cases
    case 1
    define w :: byte where "w = of_nat vlen"
    have e: "e = (w, [])" using 1 by (simp add: e_def w_def)
    have u: "uint w = int vlen" unfolding w_def by (rule uint_byte_small_nat) (use 1 in simp)
    then have "w < 13" using 1 by (simp add: word_less_def)
    moreover from this have "w < 16" by (simp add: word_less_def)
    ultimately show ?thesis unfolding e using u by (simp add: read_nibble_ext_def)
  next
    case 2
    define w :: byte where "w = of_nat (vlen - 13)"
    have e: "e = (13, [w])" using 2 by (simp add: e_def w_def)
    have u: "uint w = int (vlen - 13)" unfolding w_def
      by (rule uint_byte_small_nat) (use 2 in simp)
    show ?thesis unfolding e using u 2 by (simp add: read_nibble_ext_def)
  next
    case 3
    define K where "K = vlen - 269"
    define w0 :: byte where "w0 = of_nat (drop_bit 8 K AND 0xFF)"
    define w1 :: byte where "w1 = of_nat (K AND 0xFF)"
    have e: "e = (14, [w0, w1])" using 3 by (simp add: e_def w0_def w1_def K_def)
    have u0: "uint w0 = int (drop_bit 8 K AND 0xFF)" unfolding w0_def
      by (rule uint_byte_small_nat) (rule and_255_less)
    have u1: "uint w1 = int (K AND 0xFF)" unfolding w1_def
      by (rule uint_byte_small_nat) (rule and_255_less)
    have "push_bit 8 (drop_bit 8 (int K) AND 0xFF) OR (int K AND 0xFF) = int K"
      by (rule split16_int) (use 3 assms(1) in \<open>simp_all add: K_def\<close>)
    then have "push_bit 8 (uint w0) OR uint w1 = int K"
      by (simp add: u0 u1 of_nat_and_eq of_nat_drop_bit)
    then show ?thesis unfolding e using 3 by (simp add: read_nibble_ext_def K_def)
  qed
qed

lemma add_option_decodes:
  assumes "0 \<le> d" "d \<le> 65804" "length v \<le> 65804" "5 + length v \<le> cap"
  shows "\<exists>n byte p1 p2. add_option cap l (l + d) v = (int n, byte # p1, l + d)
              \<and> n \<le> cap \<and> length (byte # p1) = n
              \<and> read_nibble_ext (drop_bit 4 byte AND 0x0F) p1 = (d, p2)
              \<and> read_nibble_ext (byte AND 0x0F) p2 = (int (length v), v)"
proof -
  define ed where "ed = (if d < 13 then (word_of_int d :: byte, [] :: byte list)
                else if d < 269 then (13, [word_of_int (d - 13)])
                else (14, [word_of_int (drop_bit 8 (d - 269) AND 0xFF),
                           word_of_int ((d - 269) AND 0xFF)]))"
  define el where "el = (if length v < 13 then (of_nat (length v) :: byte, [] :: byte list)
                else if length v < 269 then (13, [of_nat (length v - 13)])
                else (14, [of_nat (drop_bit 8 (length v - 269) AND 0xFF),
                           of_nat ((length v - 269) AND 0xFF)]))"
  define byte where "byte = push_bit 4 (fst ed) OR fst el"
  define n where "n = 1 + length (snd ed) + length (snd el) + length v"
  have D: "fst ed < 16" "\<And>p. read_nibble_ext (fst ed) (snd ed @ p) = (d, p)"
    using encode_delta_decodes [OF assms(1,2)] unfolding ed_def by blast+
  have L: "fst el < 16" "\<And>p. read_nibble_ext (fst el) (snd el @ p) = (int (length v), p)"
    using encode_length_decodes [OF assms(3)] unfolding el_def by blast+
  have "length (snd ed) \<le> 2" "length (snd el) \<le> 2"
    by (simp_all add: ed_def el_def)
  then have n: "n \<le> cap" "\<not> cap < 1" using assms(4) by (simp_all add: n_def)
  have "add_option cap l (l + d) v =
     (if cap < 1 then (- 1, [], l)
      else if cap < n then (- 1, [], l)
      else (int n, [byte] @ snd ed @ snd el @ v, l + d))"
    unfolding add_option_def ed_def el_def Let_def byte_def n_def by (simp add: case_prod_beta)
  with n have enc: "add_option cap l (l + d) v = (int n, byte # snd ed @ snd el @ v, l + d)"
    by simp
  have hi: "drop_bit 4 byte AND 0x0F = fst ed"
    unfolding byte_def by (rule nibbles_hi [OF D(1) L(1)])
  have lo: "byte AND 0x0F = fst el"
    unfolding byte_def by (rule nibbles_lo [OF L(1)])
  have "read_nibble_ext (drop_bit 4 byte AND 0x0F) (snd ed @ snd el @ v) = (d, snd el @ v)"
    unfolding hi by (rule D(2))
  moreover have "read_nibble_ext (byte AND 0x0F) (snd el @ v) = (int (length v), v)"
    unfolding lo by (rule L(2))
  moreover have "length (byte # snd ed @ snd el @ v) = n" by (simp add: n_def)
  ultimately show ?thesis using enc n(1) by blast
qed

text \<open>
  C6. Each of 12, 13, 268, 269 and 65536 + 268, as the option delta and as the length of
  the option value: \<open>add_option\<close>, given room, writes a header byte and the extension
  bytes, and \<open>read_nibble_ext\<close> on the two nibbles of that byte, as the option loop calls
  it, gives back the delta and then the length, with the cursor left on the value.
\<close>

theorem option_nibble_boundary_roundtrip:
  assumes "d \<in> {12, 13, 268, 269, 65536 + 268}"
    and "length v \<in> {12, 13, 268, 269, 65536 + 268}"
    and "5 + length v \<le> cap"
  shows "\<exists>n byte p1 p2. add_option cap l (l + d) v = (int n, byte # p1, l + d)
              \<and> n \<le> cap \<and> length (byte # p1) = n
              \<and> read_nibble_ext (drop_bit 4 byte AND 0x0F) p1 = (d, p2)
              \<and> read_nibble_ext (byte AND 0x0F) p2 = (int (length v), v)"
proof (rule add_option_decodes)
  show "0 \<le> d" "d \<le> 65804" using assms(1) by auto
  show "length v \<le> 65804" using assms(2) by auto
  show "5 + length v \<le> cap" by (rule assms(3))
qed

theorem option_nibble_boundary_roundtrip_witness:
  "(65536 + 268 :: int) \<in> {12, 13, 268, 269, 65536 + 268}
   \<and> length (replicate 268 (0x61 :: byte)) \<in> {12, 13, 268, 269, 65536 + 268}
   \<and> 5 + length (replicate 268 (0x61 :: byte)) \<le> 1500
   \<and> (\<exists>n byte p1 p2.
         add_option 1500 0 (0 + (65536 + 268)) (replicate 268 0x61) = (int n, byte # p1, 0 + (65536 + 268))
         \<and> n \<le> 1500 \<and> length (byte # p1) = n
         \<and> read_nibble_ext (drop_bit 4 byte AND 0x0F) p1 = (65536 + 268, p2)
         \<and> read_nibble_ext (byte AND 0x0F) p2
              = (int (length (replicate 268 (0x61 :: byte))), replicate 268 0x61))"
proof -
  have a: "(65536 + 268 :: int) \<in> {12, 13, 268, 269, 65536 + 268}" by simp
  have b: "length (replicate 268 (0x61 :: byte)) \<in> {12, 13, 268, 269, 65536 + 268}" by simp
  have c: "5 + length (replicate 268 (0x61 :: byte)) \<le> 1500" by simp
  show ?thesis
    using a b c option_nibble_boundary_roundtrip [OF a b c, of 0] by blast
qed

section \<open>Building a response\<close>

lemma add_option_content_format:
  "add_option c 0 OPT_CONTENT_FORMAT [CF_TEXT_PLAIN] =
     (if c < 2 then (- 1, [], 0) else (2, [0xC1, 0x00], 12))"
  by (simp add: add_option_def)

lemma build_response_result:
  "build_response cap ty tkl tok mid code pl =
     (if cap < 4 + unat tkl then (0, [])
      else if cap < 4 + unat tkl + 2 then
        (0, [push_bit 6 COAP_VER OR push_bit 4 (if ty = COAP_CON then COAP_ACK else COAP_NON)
               OR (tkl AND 0x0F), code, ucast (drop_bit 8 mid), ucast (mid AND 0xFF)]
            @ take (unat tkl) tok)
      else if cap < response_size tkl pl then
        (0, [push_bit 6 COAP_VER OR push_bit 4 (if ty = COAP_CON then COAP_ACK else COAP_NON)
               OR (tkl AND 0x0F), code, ucast (drop_bit 8 mid), ucast (mid AND 0xFF)]
            @ take (unat tkl) tok @ [0xC1, 0x00])
      else (response_size tkl pl, response_message ty tkl tok mid code pl))"
  by (auto simp: build_response_def add_option_content_format response_size_def
      response_message_def Let_def split: option.splits)

lemma build_resp_eq: "build_resp = build_response"
  by (simp add: fun_eq_iff build_resp_def build_response_def)

text \<open>
  C7. \<open>build_response\<close> (and \<open>build_resp\<close>) is all or nothing. When the capacity is
  below the size of the complete response, it returns 0, whichever of its three checks
  (header and token, option, marker and payload) is the one that fails. When it returns a
  positive length, that length is the size of the complete response, it fits the capacity,
  and the bytes written are the complete message: header, token, Content-Format option,
  and the marker with the payload when the payload is not empty.
\<close>

theorem build_is_all_or_nothing:
  "(cap < response_size tkl pl \<longrightarrow>
      fst (build_response cap ty tkl tok mid code pl) = 0
      \<and> fst (build_resp cap ty tkl tok mid code pl) = 0)
   \<and> (0 < fst (build_response cap ty tkl tok mid code pl) \<longrightarrow>
      response_size tkl pl \<le> cap
      \<and> build_response cap ty tkl tok mid code pl =
          (response_size tkl pl, response_message ty tkl tok mid code pl))
   \<and> (0 < fst (build_resp cap ty tkl tok mid code pl) \<longrightarrow>
      response_size tkl pl \<le> cap
      \<and> build_resp cap ty tkl tok mid code pl =
          (response_size tkl pl, response_message ty tkl tok mid code pl))
   \<and> (unat tkl \<le> length tok \<longrightarrow>
      length (response_message ty tkl tok mid code pl) = response_size tkl pl)"
proof -
  have sz: "4 + unat tkl + 2 \<le> response_size tkl pl"
    by (simp add: response_size_def)
  have a: "cap < response_size tkl pl \<Longrightarrow> fst (build_response cap ty tkl tok mid code pl) = 0"
    using sz by (simp add: build_response_result)
  have b: "0 < fst (build_response cap ty tkl tok mid code pl) \<Longrightarrow>
      response_size tkl pl \<le> cap
      \<and> build_response cap ty tkl tok mid code pl =
          (response_size tkl pl, response_message ty tkl tok mid code pl)"
    using sz by (simp add: build_response_result response_message_def split: if_splits)
  have c: "unat tkl \<le> length tok \<Longrightarrow>
      length (response_message ty tkl tok mid code pl) = response_size tkl pl"
    by (simp add: response_message_def response_size_def split: option.splits)
  show ?thesis using a b c by (simp add: build_resp_eq)
qed

theorem build_is_all_or_nothing_witness:
  "10 < response_size 2 (Some [0x4F, 0x4B])
   \<and> fst (build_response 10 COAP_CON 2 [0xAB, 0xCD] 0x1234 COAP_205_CONTENT (Some [0x4F, 0x4B])) = 0
   \<and> fst (build_resp 10 COAP_CON 2 [0xAB, 0xCD] 0x1234 COAP_205_CONTENT (Some [0x4F, 0x4B])) = 0
   \<and> build_response 1500 COAP_CON 2 [0xAB, 0xCD] 0x1234 COAP_205_CONTENT (Some [0x4F, 0x4B])
       = (11, [0x62, 0x45, 0x12, 0x34, 0xAB, 0xCD, 0xC1, 0x00, 0xFF, 0x4F, 0x4B])"
proof -
  have s: "response_size 2 (Some [0x4F, 0x4B]) = 11"
    by (simp add: response_size_def)
  have p: "0 < fst (build_response 1500 COAP_CON 2 [0xAB, 0xCD] 0x1234 COAP_205_CONTENT
                      (Some [0x4F, 0x4B]))"
    by (simp add: build_response_def add_option_def)
  show ?thesis
    using s p
      build_is_all_or_nothing
        [of 10 2 "Some [0x4F, 0x4B]" COAP_CON "[0xAB, 0xCD]" "0x1234" COAP_205_CONTENT]
      build_is_all_or_nothing
        [of 1500 2 "Some [0x4F, 0x4B]" COAP_CON "[0xAB, 0xCD]" "0x1234" COAP_205_CONTENT]
    by (simp add: response_message_def)
qed

section \<open>Requests decoded by the servers\<close>

text \<open>One pass of the loop over an option whose two nibbles are literal.\<close>

lemma options_loop_literal:
  fixes a b :: byte
  assumes "a < 13" "b < 13" "length v = unat b" "last_opt + uint a \<le> 2147483647"
  shows "options_loop app path last_opt ((push_bit 4 a OR b) # v @ rest) =
     (case (if last_opt + uint a = 11 then app path v else Inr path) of
        Inl e \<Rightarrow> Inl e
      | Inr path' \<Rightarrow> options_loop app path' (last_opt + uint a) rest)"
proof -
  define byte where "byte = push_bit 4 a OR b"
  have a16: "a < 16" and b16: "b < 16" using assms(1,2) by (simp_all add: word_less_def)
  have hi: "drop_bit 4 byte AND 0x0F = a" unfolding byte_def by (rule nibbles_hi [OF a16 b16])
  have lo: "byte AND 0x0F = b" unfolding byte_def by (rule nibbles_lo [OF b16])
  have "byte AND 0x0F \<noteq> 0xFF AND 0x0F" using assms(2) unfolding lo by auto
  then have ne: "byte \<noteq> 0xFF" by auto
  have nl: "nat (uint b) = length v" using assms(3) by simp
  have ra: "read_nibble_ext a p = (uint a, p)" for p
    using assms(1) by (simp add: read_nibble_ext_def)
  have rb: "read_nibble_ext b p = (uint b, p)" for p
    using assms(2) by (simp add: read_nibble_ext_def)
  have "options_loop app path last_opt (byte # v @ rest) =
     (case (if last_opt + uint a = 11 then app path (take (nat (uint b)) (v @ rest))
            else Inr path) of
        Inl e \<Rightarrow> Inl e
      | Inr path' \<Rightarrow>
          options_loop app path' (last_opt + uint a) (drop (nat (uint b)) (v @ rest)))"
    apply (subst options_loop.simps)
    using ne assms(3,4) by (simp add: hi lo ra rb)
  also have "\<dots> =
     (case (if last_opt + uint a = 11 then app path v else Inr path) of
        Inl e \<Rightarrow> Inl e
      | Inr path' \<Rightarrow> options_loop app path' (last_opt + uint a) rest)"
    unfolding nl by (simp cong: sum.case_cong)
  finally show ?thesis by (simp only: byte_def)
qed

lemma mid_roundtrip:
  fixes m :: "16 word"
  shows "push_bit 8 (ucast (ucast (drop_bit 8 m) :: byte)) OR ucast (ucast (m AND 0xFF) :: byte) = m"
proof -
  have k: "(0xFF :: 16 word) = mask 8" by (simp add: mask_eq_exp_minus_1)
  show ?thesis unfolding k
    by (rule bit_word_eqI) (auto simp: bit_simps)
qed

lemma options_loop_marker: "options_loop app path last_opt (0xFF # rest) = Inr (path, 0xFF # rest)"
  by (subst options_loop.simps) simp

lemma short_length_byte:
  assumes "n \<le> 12"
  shows "(of_nat n :: byte) < 13" "unat (of_nat n :: byte) = n" "(of_nat n :: byte) AND 0x0F = of_nat n"
proof -
  show u: "unat (of_nat n :: byte) = n" using assms by (simp add: unat_of_nat)
  then show l: "(of_nat n :: byte) < 13" using assms by (simp add: word_less_nat_alt)
  then have "(of_nat n :: byte) < 2 ^ 4" by (simp add: word_less_def)
  then show "(of_nat n :: byte) AND 0x0F = of_nat n"
    using less_mask_eq [of "of_nat n :: byte" 4] by (simp add: mask_eq_exp_minus_1)
qed

text \<open>What \<open>addOpt\<close> writes for a value of at most 12 bytes.\<close>

lemma addOpt_short:
  assumes "length val \<le> 12"
  shows "addOpt l num val (of_nat (length val)) =
           ((ucast (push_bit 4 (num - l)) OR of_nat (length val)) # val, num)"
  using short_length_byte [OF assms] by (simp add: addOpt_def Let_def)

text \<open>The loop over one Uri-Path option as the client writes it.\<close>

lemma options_loop_segment:
  assumes "length seg \<le> 12" and "byte = push_bit 4 a OR of_nat (length seg)" and "a < 13"
    and "last_opt + uint a \<le> 2147483647"
  shows "options_loop app path last_opt (byte # seg @ rest) =
     (case (if last_opt + uint a = 11 then app path seg else Inr path) of
        Inl e \<Rightarrow> Inl e
      | Inr path' \<Rightarrow> options_loop app path' (last_opt + uint a) rest)"
  unfolding assms(2)
  using short_length_byte [OF assms(1)] assms(3,4)
  by (intro options_loop_literal) simp_all

lemma options_loop_cf:
  assumes "last_opt = 0 \<and> byte = 0xC1 \<or> last_opt = 11 \<and> byte = 0x11"
  shows "options_loop app path last_opt (byte # 50 # 0xFF # rest) = Inr (path, 0xFF # rest)"
proof -
  from assms obtain a :: byte where a: "byte = push_bit 4 a OR of_nat (length [50 :: byte])"
    "a < 13" "last_opt + uint a = 12"
  proof
    assume "last_opt = 0 \<and> byte = 0xC1"
    then show ?thesis using that [of 12] by simp
  next
    assume "last_opt = 11 \<and> byte = 0x11"
    then show ?thesis using that [of 1] by simp
  qed
  have "options_loop app path last_opt (byte # [50] @ 0xFF # rest) =
     (case (if last_opt + uint a = 11 then app path [50] else Inr path) of
        Inl e \<Rightarrow> Inl e
      | Inr path' \<Rightarrow> options_loop app path' (last_opt + uint a) (0xFF # rest))"
    by (rule options_loop_segment [OF _ a(1,2)]) (use a(3) in simp_all)
  then show ?thesis using a(3) by (simp add: options_loop_marker)
qed

lemma parse_buildPost_generic:
  assumes len: "length path1 \<le> 12" "length path2 \<le> 12"
    and app1: "path1 \<noteq> [] \<Longrightarrow> app [] (map u8_of_char path1) = Inr path1"
    and app2: "path2 \<noteq> [] \<Longrightarrow> app [] (map u8_of_char path2) = Inr path2"
    and app12: "path1 \<noteq> [] \<Longrightarrow> path2 \<noteq> [] \<Longrightarrow>
                  app path1 (map u8_of_char path2) = Inr (path1 @ ''/'' @ path2)"
  shows "coap_parse_with app (buildPost path1 path2 json msgId) =
     Inr \<lparr>req_type = COAP_CON, req_tkl = 2, req_code = COAP_POST, req_mid = msgId,
          req_token = [ucast (drop_bit 8 msgId), ucast (msgId AND 0xFF)],
          uri_path = joined_path path1 path2,
          payload = Some (map u8_of_char json)\<rparr>"
proof -
  let ?s1 = "map u8_of_char path1" and ?s2 = "map u8_of_char path2"
  let ?j = "map u8_of_char json"
  let ?hdr = "[0x42, 0x02, ucast (drop_bit 8 msgId), ucast (msgId AND 0xFF),
               ucast (drop_bit 8 msgId), ucast (msgId AND 0xFF)] :: byte list"
  have l1: "length ?s1 \<le> 12" and l2: "length ?s2 \<le> 12" using len by simp_all
  have o1: "addOpt 0 11 ?s1 (of_nat (length path1)) = ((0xB0 OR of_nat (length ?s1)) # ?s1, 11)"
    using addOpt_short [OF l1, of 0 11] by simp
  have o2a: "addOpt 0 11 ?s2 (of_nat (length path2)) = ((0xB0 OR of_nat (length ?s2)) # ?s2, 11)"
    using addOpt_short [OF l2, of 0 11] by simp
  have o2b: "addOpt 11 11 ?s2 (of_nat (length path2)) = ((0x00 OR of_nat (length ?s2)) # ?s2, 11)"
    using addOpt_short [OF l2, of 11 11] by simp
  have cf0: "addOpt 0 12 [50] 1 = ([0xC1, 50], 12)" and cf11: "addOpt 11 12 [50] 1 = ([0x11, 50], 12)"
    by (simp_all add: addOpt_def)
  have segB: "options_loop app path 0 ((0xB0 OR of_nat (length seg)) # seg @ rest) =
     (case app path seg of Inl e \<Rightarrow> Inl e | Inr path' \<Rightarrow> options_loop app path' 11 rest)"
    if "length seg \<le> 12" for path seg rest
    using options_loop_segment [OF that, of "0xB0 OR of_nat (length seg)" 11 0 app path rest]
    by (simp cong: sum.case_cong)
  have seg0: "options_loop app path 11 ((0x00 OR of_nat (length seg)) # seg @ rest) =
     (case app path seg of Inl e \<Rightarrow> Inl e | Inr path' \<Rightarrow> options_loop app path' 11 rest)"
    if "length seg \<le> 12" for path seg rest
    using options_loop_segment [OF that, of "0x00 OR of_nat (length seg)" 0 11 app path rest]
    by (simp cong: sum.case_cong)
  have cfa: "options_loop app path 0 (0xC1 # 50 # 0xFF # rest) = Inr (path, 0xFF # rest)"
    and cfb: "options_loop app path 11 (0x11 # 50 # 0xFF # rest) = Inr (path, 0xFF # rest)"
    for path rest
    by (rule options_loop_cf, simp)+
  have loop: "options_loop app [] 0 (drop 6 (buildPost path1 path2 json msgId))
      = Inr (joined_path path1 path2, 0xFF # ?j)"
    and hd: "take 6 (buildPost path1 path2 json msgId) = ?hdr"
    and ln: "6 \<le> length (buildPost path1 path2 json msgId)"
  proof -
    consider "path1 = []" "path2 = []" | "path1 = []" "path2 \<noteq> []"
      | "path1 \<noteq> []" "path2 = []" | "path1 \<noteq> []" "path2 \<noteq> []" by blast
    then have "options_loop app [] 0 (drop 6 (buildPost path1 path2 json msgId))
      = Inr (joined_path path1 path2, 0xFF # ?j)
      \<and> take 6 (buildPost path1 path2 json msgId) = ?hdr
      \<and> 6 \<le> length (buildPost path1 path2 json msgId)"
    proof cases
      case 1
      then show ?thesis
        by (simp add: buildPost_def cf0 cfa joined_path_def)
    next
      case 2
      then show ?thesis
        using segB [OF l2, of "[]"] app2
        by (simp add: buildPost_def o2a cf11 cfb joined_path_def)
    next
      case 3
      then show ?thesis
        using segB [OF l1, of "[]"] app1
        by (simp add: buildPost_def o1 cf11 cfb joined_path_def)
    next
      case 4
      then show ?thesis
        using segB [OF l1, of "[]"] seg0 [OF l2, of path1] app1 app12
        by (simp add: buildPost_def o1 o2b cf11 cfb joined_path_def)
    qed
    then show "options_loop app [] 0 (drop 6 (buildPost path1 path2 json msgId))
      = Inr (joined_path path1 path2, 0xFF # ?j)"
      and "take 6 (buildPost path1 path2 json msgId) = ?hdr"
      and "6 \<le> length (buildPost path1 path2 json msgId)" by blast+
  qed
  define buf where "buf = buildPost path1 path2 json msgId"
  have b: "buf ! 0 = 0x42" "buf ! 1 = 0x02" "buf ! 2 = ucast (drop_bit 8 msgId)"
    "buf ! 3 = ucast (msgId AND 0xFF)"
    "take 2 (drop 4 buf) = [ucast (drop_bit 8 msgId), ucast (msgId AND 0xFF)]"
    using hd ln unfolding buf_def [symmetric]
    by (auto simp: list_eq_iff_nth_eq nth_Cons' take_drop dest!: spec)
  show ?thesis
    unfolding buf_def [symmetric]
    using loop ln b unfolding buf_def [symmetric]
    by (simp add: coap_parse_with_def mid_roundtrip)
qed

lemma uri_path_strncat_first:
  assumes "c_string s" "s \<noteq> []" "length s \<le> 127"
  shows "uri_path_strncat [] (map u8_of_char s) = Inr s"
  using assms by (simp add: uri_path_strncat_def cstr_c_string chars_of_bytes_of_chars Let_def)

lemma uri_path_strncat_next:
  assumes "c_string s" "s \<noteq> []" "path \<noteq> []" "length path + 1 + length s \<le> 127"
  shows "uri_path_strncat path (map u8_of_char s) = Inr (path @ ''/'' @ s)"
  using assms by (simp add: uri_path_strncat_def cstr_c_string chars_of_bytes_of_chars Let_def)

lemma append_uri_segment_first:
  assumes "c_string s" "s \<noteq> []" "length s \<le> 127"
  shows "append_uri_segment [] 128 (map u8_of_char s) = s"
  using assms by (simp add: append_uri_segment_def cstr_c_string chars_of_bytes_of_chars Let_def)

lemma append_uri_segment_next:
  assumes "c_string s" "c_string path" "s \<noteq> []" "path \<noteq> []" "length path + 1 + length s \<le> 127"
  shows "append_uri_segment path 128 (map u8_of_char s) = path @ ''/'' @ s"
proof -
  have "c_string (path @ ''/'' @ s)" using assms(1,2) by (simp add: c_string_append c_string_def)
  then have "cstr (path @ ''/'' @ s) = path @ ''/'' @ s" by (rule cstr_c_string)
  then show ?thesis
    using assms by (simp add: append_uri_segment_def chars_of_bytes_of_chars Let_def)
qed

text \<open>The header byte of a request, taken apart as \<open>coap_parse\<close> does.\<close>

lemma header_byte:
  fixes ty :: byte
  assumes "ty < 4" "n \<le> 8"
  defines "b \<equiv> push_bit 6 COAP_VER OR push_bit 4 ty OR (of_nat n :: byte)"
  shows "drop_bit 6 b AND 0x03 = 1" "drop_bit 4 b AND 0x03 = ty" "b AND 0x0F = of_nat n"
    "unat (of_nat n :: byte) = n" "\<not> 8 < (of_nat n :: byte)"
proof -
  define k :: byte where "k = of_nat n"
  show u: "unat (of_nat n :: byte) = n" using assms(2) by (simp add: unat_of_nat)
  then show "\<not> 8 < (of_nat n :: byte)" using assms(2) by (simp add: word_less_nat_alt)
  have "k < 2 ^ 4" using u assms(2) unfolding k_def by (simp add: word_less_nat_alt)
  then have k: "take_bit 4 k = k" using less_mask_eq [of k 4] by (simp add: take_bit_eq_mask)
  have "ty < 2 ^ 2" using assms(1) by simp
  then have t: "take_bit 2 ty = ty" using less_mask_eq [of ty 2] by (simp add: take_bit_eq_mask)
  have m3: "(0x03 :: byte) = mask 2" and m15: "(0x0F :: byte) = mask 4"
    by (simp_all add: mask_eq_exp_minus_1)
  define v :: byte where "v = 1"
  have v: "take_bit 2 v = v" by (simp add: v_def)
  have "drop_bit 6 (push_bit 6 (take_bit 2 v) OR push_bit 4 (take_bit 2 ty) OR take_bit 4 k) AND mask 2
      = take_bit 2 v"
    by (rule bit_word_eqI) (auto simp: bit_simps)
  then have "drop_bit 6 (push_bit 6 v OR push_bit 4 ty OR k) AND 0x03 = v" by (simp only: t k m3 v)
  then show "drop_bit 6 b AND 0x03 = 1" unfolding b_def k_def [symmetric] v_def .
  have "drop_bit 4 (push_bit 6 (take_bit 2 v) OR push_bit 4 (take_bit 2 ty) OR take_bit 4 k) AND mask 2
      = take_bit 2 ty"
    by (rule bit_word_eqI) (auto simp: bit_simps)
  then have "drop_bit 4 (push_bit 6 v OR push_bit 4 ty OR k) AND 0x03 = ty" by (simp only: t k m3 v)
  then show "drop_bit 4 b AND 0x03 = ty" unfolding b_def k_def [symmetric] v_def .
  have "(push_bit 6 (take_bit 2 v) OR push_bit 4 (take_bit 2 ty) OR take_bit 4 k) AND mask 4 = take_bit 4 k"
    by (rule bit_word_eqI) (auto simp: bit_simps)
  then have "(push_bit 6 v OR push_bit 4 ty OR k) AND 0x0F = k" by (simp only: t k m15 v)
  then show "b AND 0x0F = of_nat n" unfolding b_def k_def [symmetric] v_def .
qed

lemma options_loop_add_option:
  assumes "0 \<le> d" "d \<le> 65804" "length v \<le> 65804" "5 + length v \<le> cap"
    and "l + d \<le> 2147483647"
  shows "\<exists>n opt. add_option cap l (l + d) v = (int n, opt, l + d)
           \<and> (\<forall>app path rest. options_loop app path l (opt @ rest) =
                 (case (if l + d = 11 then app path v else Inr path) of
                    Inl e \<Rightarrow> Inl e
                  | Inr path' \<Rightarrow> options_loop app path' (l + d) rest))"
proof -
  from add_option_decodes [OF assms(1-4), of l] obtain n byte p1 p2 where
    enc: "add_option cap l (l + d) v = (int n, byte # p1, l + d)"
    and rd: "read_nibble_ext (drop_bit 4 byte AND 0x0F) p1 = (d, p2)"
    and rl: "read_nibble_ext (byte AND 0x0F) p2 = (int (length v), v)"
    by blast
  have ne: "byte \<noteq> 0xFF"
  proof
    assume "byte = 0xFF"
    with rd assms(1) show False by (simp add: read_nibble_ext_def)
  qed
  have "options_loop app path l ((byte # p1) @ rest) =
          (case (if l + d = 11 then app path v else Inr path) of
             Inl e \<Rightarrow> Inl e
           | Inr path' \<Rightarrow> options_loop app path' (l + d) rest)" for app path rest
  proof -
    have rd': "read_nibble_ext (drop_bit 4 byte AND 0x0F) (p1 @ rest) = (d, p2 @ rest)"
      by (rule read_nibble_ext_append [OF rd assms(1)])
    have rl': "read_nibble_ext (byte AND 0x0F) (p2 @ rest) = (int (length v), v @ rest)"
      by (rule read_nibble_ext_append [OF rl]) simp
    show ?thesis
      apply (subst options_loop.simps)
      using ne assms(1,5) by (simp add: rd' rl' cong: sum.case_cong)
  qed
  with enc show ?thesis by blast
qed

lemma path_step_length: "length p \<le> length (foldl path_step p segs)"
proof (induction segs arbitrary: p)
  case Nil
  show ?case by simp
next
  case (Cons s segs)
  have "length p \<le> length (path_step p s)" by (simp add: path_step_def)
  also have "\<dots> \<le> length (foldl path_step (path_step p s) segs)" by (rule Cons.IH)
  finally show ?case by simp
qed

lemma foldl_path_step:
  assumes "\<forall>s \<in> set segs. s \<noteq> []"
  shows "foldl path_step p segs =
           (if segs = [] then p else if p = [] then join_path segs else p @ ''/'' @ join_path segs)"
  using assms
proof (induction segs arbitrary: p)
  case Nil
  show ?case by simp
next
  case (Cons s segs)
  then have IH: "foldl path_step q segs =
           (if segs = [] then q else if q = [] then join_path segs else q @ ''/'' @ join_path segs)"
    for q by simp
  from Cons.prems have s: "s \<noteq> []" by simp
  show ?case
  proof (cases segs)
    case Nil
    then show ?thesis by (simp add: path_step_def)
  next
    case (Cons t ts)
    have q: "path_step p s \<noteq> []" using s by (simp add: path_step_def)
    have ne: "segs \<noteq> []" using Cons by simp
    have "foldl path_step p (s # segs) = foldl path_step (path_step p s) segs" by simp
    also have "\<dots> = path_step p s @ ''/'' @ join_path segs"
      by (subst IH) (simp add: q ne)
    finally have F: "foldl path_step p (s # segs) = path_step p s @ ''/'' @ join_path segs" .
    show ?thesis unfolding F by (simp add: Cons path_step_def)
  qed
qed

lemma uri_path_options_loop:
  assumes app: "\<And>p s. c_string p \<Longrightarrow> c_string s \<Longrightarrow> s \<noteq> [] \<Longrightarrow> length (path_step p s) \<le> 127
                  \<Longrightarrow> app p (map u8_of_char s) = Inr (path_step p s)"
    and segs: "\<forall>s \<in> set segs. s \<noteq> [] \<and> c_string s"
    and path: "c_string path"
    and len: "length (foldl path_step path segs) \<le> 127"
    and l: "l = 0 \<or> l = 11"
    and rest: "rest = [] \<or> (\<exists>pl. rest = 0xFF # pl)"
  shows "options_loop app path l (uri_path_options l segs @ rest)
           = Inr (foldl path_step path segs, rest)"
  using segs path len l
proof (induction segs arbitrary: path l)
  case Nil
  from rest show ?case
    by (auto simp: options_loop.simps)
next
  case (Cons s segs)
  from Cons.prems(1) have s: "s \<noteq> []" "c_string s" by simp_all
  have ls: "length (path_step path s) \<le> 127"
    using path_step_length [of "path_step path s" segs] Cons.prems(3) by simp
  then have "length s \<le> 127" by (simp add: path_step_def split: if_splits)
  define d where "d = 11 - l"
  have d: "0 \<le> d" "d \<le> 65804" "l + d = 11" using Cons.prems(4) by (auto simp: d_def)
  from options_loop_add_option [of d "map u8_of_char s" "5 + length s" l] d \<open>length s \<le> 127\<close>
  obtain n opt where enc0: "add_option (5 + length s) l (l + d) (map u8_of_char s) = (int n, opt, l + d)"
    and step0: "\<forall>app path rest. options_loop app path l (opt @ rest) =
                 (case (if l + d = 11 then app path (map u8_of_char s) else Inr path) of
                    Inl e \<Rightarrow> Inl e
                  | Inr path' \<Rightarrow> options_loop app path' (l + d) rest)"
    by auto
  have enc: "add_option (5 + length s) l 11 (map u8_of_char s) = (int n, opt, 11)"
    using enc0 unfolding d(3) .
  have step: "options_loop app path l (opt @ rest) =
                 (case app path (map u8_of_char s) of
                    Inl e \<Rightarrow> Inl e
                  | Inr path' \<Rightarrow> options_loop app path' 11 rest)" for app path rest
    using step0 unfolding d(3) by simp
  have cs: "c_string (path_step path s)"
    using Cons.prems(2) s(2) by (simp add: path_step_def c_string_append c_string_def)
  have "options_loop app path l (uri_path_options l (s # segs) @ rest)
      = options_loop app (path_step path s) 11 (uri_path_options 11 segs @ rest)"
    using step [of app path "uri_path_options 11 segs @ rest"]
      app [OF Cons.prems(2) s(2) s(1) ls]
    by (simp add: enc)
  also have "\<dots> = Inr (foldl path_step (path_step path s) segs, rest)"
    by (rule Cons.IH) (use Cons.prems cs in simp_all)
  finally show ?case by simp
qed

lemma uri_path_strncat_step:
  assumes "c_string p" "c_string s" "s \<noteq> []" "length (path_step p s) \<le> 127"
  shows "uri_path_strncat p (map u8_of_char s) = Inr (path_step p s)"
  using assms uri_path_strncat_first [of s] uri_path_strncat_next [of s p]
  by (simp add: path_step_def split: if_splits)

lemma append_uri_segment_step:
  assumes "c_string p" "c_string s" "s \<noteq> []" "length (path_step p s) \<le> 127"
  shows "Inr (append_uri_segment p 128 (map u8_of_char s)) = (Inr (path_step p s) :: parse_failure + string)"
  using assms append_uri_segment_first [of s] append_uri_segment_next [of s p]
  by (simp add: path_step_def split: if_splits)

lemma parse_build_request_generic:
  assumes app: "\<And>p s. c_string p \<Longrightarrow> c_string s \<Longrightarrow> s \<noteq> [] \<Longrightarrow> length (path_step p s) \<le> 127
                  \<Longrightarrow> app p (map u8_of_char s) = Inr (path_step p s)"
    and ty: "ty < 4" and tok: "length tok \<le> 8"
    and segs: "\<forall>s \<in> set segs. s \<noteq> [] \<and> c_string s"
    and len: "length (join_path segs) \<le> 127"
  shows "coap_parse_with app (build_request ty code tok mid segs pl) =
     Inr \<lparr>req_type = ty, req_tkl = of_nat (length tok), req_code = code, req_mid = mid,
          req_token = tok, uri_path = join_path segs,
          payload = (if pl = [] then None else Some pl)\<rparr>"
proof -
  define b :: byte where "b = push_bit 6 COAP_VER OR push_bit 4 ty OR of_nat (length tok)"
  define rest where "rest = (if pl = [] then [] else 0xFF # pl)"
  define buf where "buf = build_request ty code tok mid segs pl"
  note hb = header_byte [OF ty tok, folded b_def]
  have buf: "buf = [b, code, ucast (drop_bit 8 mid), ucast (mid AND 0xFF)]
                 @ tok @ uri_path_options 0 segs @ rest"
    by (simp add: buf_def build_request_def b_def rest_def)
  have fj: "foldl path_step [] segs = join_path segs"
    using foldl_path_step [of segs "[]"] segs by auto
  have "options_loop app [] 0 (uri_path_options 0 segs @ rest) = Inr (foldl path_step [] segs, rest)"
    by (rule uri_path_options_loop [OF app segs])
       (simp_all add: c_string_def fj len rest_def)
  moreover have "drop (4 + length tok) buf = uri_path_options 0 segs @ rest"
    by (simp add: buf eval_nat_numeral)
  ultimately have loop: "options_loop app [] 0 (drop (4 + length tok) buf) = Inr (join_path segs, rest)"
    by (simp add: fj)
  have n: "buf ! 0 = b" "buf ! Suc 0 = code" "buf ! 2 = ucast (drop_bit 8 mid)"
    "buf ! 3 = ucast (mid AND 0xFF)" "take (length tok) (drop 4 buf) = tok"
    "\<not> length buf < 4" "\<not> length buf < 4 + length tok"
    by (simp_all add: buf)
  have pay: "(case rest of [] \<Rightarrow> None | b # p' \<Rightarrow> if b = 0xFF then Some p' else None)
      = (if pl = [] then None else Some pl)"
    by (simp add: rest_def)
  show ?thesis
    unfolding buf_def [symmetric]
    by (simp add: coap_parse_with_def Let_def n hb loop pay mid_roundtrip)
qed

text \<open>
  C2, amended. A request with Uri-Path options in the encoding of the servers' own
  \<open>add_option\<close> (\<open>build_request\<close>): any type, any code (so each of GET, POST and PUT),
  any token of up to 8 bytes, any message id, any payload, and any number of segments that
  are not empty and hold no NUL, whose joined path fits the 127 characters of
  \<open>uri_path\<close>. \<open>coap_parse\<close> of either server recovers the type, the token, the message
  id and the segments joined with a slash; it also recovers the token length, the code and
  the payload. The client's \<open>buildPost\<close> writes no extension bytes: for its requests (a
  confirmable POST whose token is the two bytes of the message id) the same holds when
  each of the two segments has at most 12 bytes.
\<close>

theorem constructed_request_roundtrip:
  "(ty < 4 \<and> length tok \<le> 8 \<and> (\<forall>s \<in> set segs. s \<noteq> [] \<and> c_string s)
      \<and> length (join_path segs) \<le> 127 \<longrightarrow>
      coap_parse (build_request ty code tok mid segs pl) =
        Inr \<lparr>req_type = ty, req_tkl = of_nat (length tok), req_code = code, req_mid = mid,
             req_token = tok, uri_path = join_path segs,
             payload = (if pl = [] then None else Some pl)\<rparr>
      \<and> coap_parse_persist (build_request ty code tok mid segs pl) =
        Inr \<lparr>req_type = ty, req_tkl = of_nat (length tok), req_code = code, req_mid = mid,
             req_token = tok, uri_path = join_path segs,
             payload = (if pl = [] then None else Some pl)\<rparr>)
   \<and> (c_string path1 \<and> c_string path2 \<and> length path1 \<le> 12 \<and> length path2 \<le> 12 \<longrightarrow>
      coap_parse (buildPost path1 path2 json msgId) =
        Inr \<lparr>req_type = COAP_CON, req_tkl = 2, req_code = COAP_POST, req_mid = msgId,
             req_token = [ucast (drop_bit 8 msgId), ucast (msgId AND 0xFF)],
             uri_path = joined_path path1 path2,
             payload = Some (map u8_of_char json)\<rparr>
      \<and> coap_parse_persist (buildPost path1 path2 json msgId) =
        Inr \<lparr>req_type = COAP_CON, req_tkl = 2, req_code = COAP_POST, req_mid = msgId,
             req_token = [ucast (drop_bit 8 msgId), ucast (msgId AND 0xFF)],
             uri_path = joined_path path1 path2,
             payload = Some (map u8_of_char json)\<rparr>)"
proof (intro conjI impI)
  assume h: "ty < 4 \<and> length tok \<le> 8 \<and> (\<forall>s \<in> set segs. s \<noteq> [] \<and> c_string s)
      \<and> length (join_path segs) \<le> 127"
  show "coap_parse (build_request ty code tok mid segs pl) =
        Inr \<lparr>req_type = ty, req_tkl = of_nat (length tok), req_code = code, req_mid = mid,
             req_token = tok, uri_path = join_path segs,
             payload = (if pl = [] then None else Some pl)\<rparr>"
    unfolding coap_parse_def
    by (rule parse_build_request_generic [OF uri_path_strncat_step]) (use h in simp_all)
  show "coap_parse_persist (build_request ty code tok mid segs pl) =
        Inr \<lparr>req_type = ty, req_tkl = of_nat (length tok), req_code = code, req_mid = mid,
             req_token = tok, uri_path = join_path segs,
             payload = (if pl = [] then None else Some pl)\<rparr>"
    unfolding coap_parse_persist_def
    by (rule parse_build_request_generic [OF append_uri_segment_step]) (use h in simp_all)
next
  assume h: "c_string path1 \<and> c_string path2 \<and> length path1 \<le> 12 \<and> length path2 \<le> 12"
  show "coap_parse (buildPost path1 path2 json msgId) =
           Inr \<lparr>req_type = COAP_CON, req_tkl = 2, req_code = COAP_POST, req_mid = msgId,
                req_token = [ucast (drop_bit 8 msgId), ucast (msgId AND 0xFF)],
                uri_path = joined_path path1 path2,
                payload = Some (map u8_of_char json)\<rparr>"
    unfolding coap_parse_def
    using h
    by (intro parse_buildPost_generic uri_path_strncat_first uri_path_strncat_next) simp_all
  show "coap_parse_persist (buildPost path1 path2 json msgId) =
           Inr \<lparr>req_type = COAP_CON, req_tkl = 2, req_code = COAP_POST, req_mid = msgId,
                req_token = [ucast (drop_bit 8 msgId), ucast (msgId AND 0xFF)],
                uri_path = joined_path path1 path2,
                payload = Some (map u8_of_char json)\<rparr>"
    unfolding coap_parse_persist_def
    using h
    by (intro parse_buildPost_generic) (simp_all add: append_uri_segment_first append_uri_segment_next)
qed

theorem constructed_request_roundtrip_witness:
  "build_request COAP_NON COAP_GET [1, 2, 3, 4, 5] 0x1234 [''temperature-c'', ''room1''] [0x32, 0x31]
     = [0x55, 0x01, 0x12, 0x34, 1, 2, 3, 4, 5,
        0xBD, 0x00, 0x74, 0x65, 0x6D, 0x70, 0x65, 0x72, 0x61, 0x74, 0x75, 0x72, 0x65, 0x2D, 0x63,
        0x05, 0x72, 0x6F, 0x6F, 0x6D, 0x31, 0xFF, 0x32, 0x31]
   \<and> coap_parse (build_request COAP_NON COAP_GET [1, 2, 3, 4, 5] 0x1234
                   [''temperature-c'', ''room1''] [0x32, 0x31]) =
        Inr \<lparr>req_type = COAP_NON, req_tkl = 5, req_code = COAP_GET, req_mid = 0x1234,
             req_token = [1, 2, 3, 4, 5], uri_path = ''temperature-c/room1'',
             payload = Some [0x32, 0x31]\<rparr>
   \<and> coap_parse_persist (build_request COAP_NON COAP_GET [1, 2, 3, 4, 5] 0x1234
                   [''temperature-c'', ''room1''] [0x32, 0x31]) =
        Inr \<lparr>req_type = COAP_NON, req_tkl = 5, req_code = COAP_GET, req_mid = 0x1234,
             req_token = [1, 2, 3, 4, 5], uri_path = ''temperature-c/room1'',
             payload = Some [0x32, 0x31]\<rparr>
   \<and> coap_parse (buildPost ''sensors'' ''dist'' ''{}'' 0x1234) =
        Inr \<lparr>req_type = COAP_CON, req_tkl = 2, req_code = COAP_POST, req_mid = 0x1234,
             req_token = [0x12, 0x34], uri_path = ''sensors/dist'',
             payload = Some [0x7B, 0x7D]\<rparr>
   \<and> coap_parse_persist (buildPost ''sensors'' ''dist'' ''{}'' 0x1234) =
        Inr \<lparr>req_type = COAP_CON, req_tkl = 2, req_code = COAP_POST, req_mid = 0x1234,
             req_token = [0x12, 0x34], uri_path = ''sensors/dist'',
             payload = Some [0x7B, 0x7D]\<rparr>"
proof -
  have b: "build_request COAP_NON COAP_GET [1, 2, 3, 4, 5] 0x1234 [''temperature-c'', ''room1''] [0x32, 0x31]
     = [0x55, 0x01, 0x12, 0x34, 1, 2, 3, 4, 5,
        0xBD, 0x00, 0x74, 0x65, 0x6D, 0x70, 0x65, 0x72, 0x61, 0x74, 0x75, 0x72, 0x65, 0x2D, 0x63,
        0x05, 0x72, 0x6F, 0x6F, 0x6D, 0x31, 0xFF, 0x32, 0x31]"
    by (simp add: build_request_def add_option_def u8_of_char_def)
  have h1: "(1 :: byte) < 4 \<and> length [1, 2, 3, 4, 5 :: byte] \<le> 8
      \<and> (\<forall>s \<in> set [''temperature-c'', ''room1'']. s \<noteq> [] \<and> c_string s)
      \<and> length (join_path [''temperature-c'', ''room1'']) \<le> 127"
    by (simp add: c_string_def)
  have h2: "c_string ''sensors'' \<and> c_string ''dist'' \<and> length ''sensors'' \<le> 12
      \<and> length ''dist'' \<le> 12"
    by (simp add: c_string_def)
  show ?thesis
    using b h1 h2
      constructed_request_roundtrip [where ty = 1 and tok = "[1, 2, 3, 4, 5]"
        and segs = "[''temperature-c'', ''room1'']" and code = COAP_GET and mid = "0x1234"
        and pl = "[0x32, 0x31]" and ?path1.0 = "''sensors''" and ?path2.0 = "''dist''"
        and json = "''{}''" and msgId = "0x1234"]
    by (simp add: joined_path_def u8_of_char_def)
qed

text \<open>
  C2 as stated fails for longer segments. A first segment of 13 bytes gets from
  \<open>buildPost\<close> the length nibble 13, which the decoder reads as "one extension byte
  follows": it takes the first character of the segment for it, finds an option longer
  than the datagram, and rejects. And a path of 128 characters, in the right encoding,
  does not fit \<open>uri_path[128]\<close>: \<open>strncat\<close> in \<open>server.c\<close> writes past the array, and the
  persistent server keeps the first 127 characters.
\<close>

theorem buildPost_long_segment_counterexample:
  "c_string ''temperature-c'' \<and> c_string ''room1''
   \<and> coap_parse (buildPost ''temperature-c'' ''room1'' ''{}'' 7) = Inl Rejected
   \<and> coap_parse_persist (buildPost ''temperature-c'' ''room1'' ''{}'' 7) = Inl Rejected
   \<and> coap_parse (build_request COAP_CON COAP_GET [] 1 [replicate 128 CHR ''a''] []) = Inl Undefined
   \<and> coap_parse_persist (build_request COAP_CON COAP_GET [] 1 [replicate 128 CHR ''a''] [])
       = Inr (request COAP_GET (replicate 127 CHR ''a'') None)"
  by (simp add: c_string_def buildPost_def addOpt_def u8_of_char_def coap_parse_def
      coap_parse_persist_def coap_parse_with_def options_loop.simps read_nibble_ext_def
      build_request_def add_option_def uri_path_strncat_def append_uri_segment_def cstr_def
      char_of_u8_def)

section \<open>Requests outside the routing table\<close>

text \<open>
  C1, amended. In the volatile server a decoded request for the path \<open>sensor\<close> whose
  method is neither GET nor PUT gets 4.05 with the body \<open>METHOD_NOT_ALLOWED\<close>, and a
  request for a path other than \<open>sensor\<close> and \<open>echo\<close> gets 4.04 with the body
  \<open>NOT_FOUND\<close>. The persistent server has no 4.05: it answers both with 4.04 and
  \<open>NOT_FOUND\<close>. Neither changes the state.
\<close>

theorem unmatched_requests:
  "(coap_parse buf = Inr r \<longrightarrow>
      (uri_path r = ''sensor'' \<and> req_code r \<noteq> COAP_GET \<and> req_code r \<noteq> COAP_PUT \<longrightarrow>
         dispatch g r = (g, COAP_405_METHODNA, ''METHOD_NOT_ALLOWED''))
      \<and> (uri_path r \<noteq> ''sensor'' \<and> uri_path r \<noteq> ''echo'' \<longrightarrow>
         dispatch g r = (g, COAP_404_NOTFOUND, ''NOT_FOUND'')))
   \<and> (coap_parse_persist buf = Inr r \<longrightarrow>
      (uri_path r = ''sensor'' \<and> req_code r \<noteq> COAP_GET \<and> req_code r \<noteq> COAP_PUT \<longrightarrow>
         dispatch_persist CURR DATA env fs r = (fs, COAP_404_NOTFOUND, ''NOT_FOUND''))
      \<and> (uri_path r \<noteq> ''sensor'' \<and> uri_path r \<noteq> ''echo'' \<longrightarrow>
         dispatch_persist CURR DATA env fs r = (fs, COAP_404_NOTFOUND, ''NOT_FOUND'')))"
  by (simp add: dispatch_def dispatch_persist_def Let_def)

lemma parse_delete_sensor:
  "coap_parse_with app [0x40, 0x04, 0x00, 0x01, 0xB6, 0x73, 0x65, 0x6E, 0x73, 0x6F, 0x72]
     = (case app [] [0x73, 0x65, 0x6E, 0x73, 0x6F, 0x72] of Inl e \<Rightarrow> Inl e | Inr path \<Rightarrow>
       Inr \<lparr>req_type = 0, req_tkl = 0, req_code = 0x04, req_mid = 1, req_token = [],
            uri_path = path, payload = None\<rparr>)"
  by (simp add: coap_parse_with_def options_loop.simps read_nibble_ext_def split: sum.splits)

theorem unmatched_requests_witness:
  "coap_parse [0x40, 0x04, 0x00, 0x01, 0xB6, 0x73, 0x65, 0x6E, 0x73, 0x6F, 0x72]
     = Inr \<lparr>req_type = 0, req_tkl = 0, req_code = 0x04, req_mid = 1, req_token = [],
            uri_path = ''sensor'', payload = None\<rparr>
   \<and> dispatch g_state_init
        \<lparr>req_type = 0, req_tkl = 0, req_code = 0x04, req_mid = 1, req_token = [],
            uri_path = ''sensor'', payload = None\<rparr>
     = (g_state_init, COAP_405_METHODNA, ''METHOD_NOT_ALLOWED'')"
proof -
  let ?b = "[0x40, 0x04, 0x00, 0x01, 0xB6, 0x73, 0x65, 0x6E, 0x73, 0x6F, 0x72] :: byte list"
  let ?r = "\<lparr>req_type = 0, req_tkl = 0, req_code = 0x04, req_mid = 1, req_token = [],
            uri_path = ''sensor'', payload = None\<rparr>"
  have p: "coap_parse ?b = Inr ?r"
    by (simp add: coap_parse_def parse_delete_sensor uri_path_strncat_def cstr_def char_of_u8_def)
  show ?thesis
    using p unmatched_requests [of ?b ?r g_state_init]
    by simp
qed

text \<open>
  C1 as stated fails in the persistent server: a request with method code 0.04 (DELETE)
  for \<open>sensor\<close> is answered 4.04 \<open>NOT_FOUND\<close>, not 4.05.
\<close>

theorem delete_sensor_persist_counterexample:
  "coap_parse_persist [0x40, 0x04, 0x00, 0x01, 0xB6, 0x73, 0x65, 0x6E, 0x73, 0x6F, 0x72]
     = Inr \<lparr>req_type = 0, req_tkl = 0, req_code = 0x04, req_mid = 1, req_token = [],
            uri_path = ''sensor'', payload = None\<rparr>
   \<and> dispatch_persist ''/opt/coap/current.txt'' ''/opt/coap/data.txt''
        \<lparr>fopen_current_fails = False, fprintf_current_fails = False,
         fclose_current_fails = False, current_short = 0,
         fopen_history_fails = False, fprintf_history_fails = False,
         fclose_history_fails = False, history_short = 0,
         iso = ''2025-01-01T00:00:00Z'', same_file = (\<lambda>p q. False)\<rparr>
        Map.empty
        \<lparr>req_type = 0, req_tkl = 0, req_code = 0x04, req_mid = 1, req_token = [],
            uri_path = ''sensor'', payload = None\<rparr>
     = (Map.empty, COAP_404_NOTFOUND, ''NOT_FOUND'')"
  by (simp add: coap_parse_persist_def parse_delete_sensor append_uri_segment_def cstr_def
      char_of_u8_def dispatch_persist_def Let_def)

section \<open>Reading the last line of a file\<close>

lemma split_lines_line:
  "LF \<notin> set l \<Longrightarrow> split_lines cur (l @ LF # rest) = (cur @ l) # split_lines [] rest"
  by (induction l arbitrary: cur) auto

lemma split_lines_last:
  "LF \<notin> set l \<Longrightarrow> split_lines cur l = (if cur @ l = [] then [] else [cur @ l])"
  by (induction l arbitrary: cur) auto

lemma lines_of_line: "LF \<notin> set l \<Longrightarrow> lines_of (l @ LF # rest) = l # lines_of rest"
  by (simp add: lines_of_def split_lines_line)

lemma lines_of_last: "LF \<notin> set l \<Longrightarrow> lines_of l = (if l = [] then [] else [l])"
  by (simp add: lines_of_def split_lines_last)

lemma text_cases:
  obtains (last_line) "LF \<notin> set doc"
  | (line) l rest where "doc = l @ LF # rest" "LF \<notin> set l"
proof (cases "LF \<in> set doc")
  case False
  then show ?thesis by (rule last_line)
next
  case True
  then obtain l rest where "doc = l @ LF # rest" "LF \<notin> set l"
    by (auto dest: split_list_first)
  then show ?thesis by (rule line)
qed

lemma takeWhile_line: "LF \<notin> set l \<Longrightarrow> takeWhile (\<lambda>c. c \<noteq> LF) (l @ LF # rest) = l"
  by (induction l) auto

lemma takeWhile_last_line: "LF \<notin> set l \<Longrightarrow> takeWhile (\<lambda>c. c \<noteq> LF) l = l"
  by (induction l) auto

lemma fgets_line:
  assumes "LF \<notin> set l" "length l < 2047"
  shows "fgets 2048 (l @ LF # rest) = Some (l @ [LF], rest)"
proof (cases "length l < 2046")
  case True
  then show ?thesis using assms by (simp add: fgets_def takeWhile_line Let_def)
next
  case False
  then have "length l = 2046" using assms(2) by simp
  then show ?thesis using assms by (simp add: fgets_def takeWhile_line Let_def)
qed

lemma fgets_full_line:
  assumes "LF \<notin> set l" "length l = 2047"
  shows "fgets 2048 (l @ LF # rest) = Some (l, LF # rest)"
  using assms by (simp add: fgets_def takeWhile_line Let_def)

lemma fgets_last_line:
  assumes "LF \<notin> set l" "l \<noteq> []" "length l \<le> 2047"
  shows "fgets 2048 l = Some (l, [])"
  using assms by (simp add: fgets_def takeWhile_last_line Let_def)

lemma rstrip_LF: "rstrip (l @ [LF]) = rstrip l"
  by (simp add: rstrip_def)

lemma rstrip_only_LF: "rstrip [LF] = []"
  by (simp add: rstrip_def)

lemma rstrip_length: "length (rstrip l) \<le> length l"
proof -
  have "length (dropWhile P xs) \<le> length xs" for P and xs :: string
    by (induction xs) auto
  from this [of _ "rev l"] show ?thesis by (simp add: rstrip_def)
qed

lemma rstrip_id: "s = [] \<or> (last s \<noteq> LF \<and> last s \<noteq> CR) \<Longrightarrow> rstrip s = s"
proof (cases s rule: rev_cases)
  case Nil
  then show ?thesis by (simp add: rstrip_def)
next
  case (snoc ys y)
  assume "s = [] \<or> (last s \<noteq> LF \<and> last s \<noteq> CR)"
  with snoc show ?thesis by (simp add: rstrip_def)
qed

lemma last_nonempty_line_Cons:
  assumes "LF \<notin> set l"
  shows "last_nonempty_line (l @ LF # rest) =
     (case last_nonempty_line rest of
        None \<Rightarrow> if rstrip l = [] then None else Some (rstrip l)
      | Some x \<Rightarrow> Some x)"
  using assms by (simp add: last_nonempty_line_def lines_of_line split: list.splits)

lemma last_nonempty_line_last:
  assumes "LF \<notin> set l"
  shows "last_nonempty_line l = (if rstrip l = [] then None else Some (rstrip l))"
proof -
  have "rstrip [] = []" by (simp add: rstrip_def)
  then show ?thesis
    using assms by (simp add: last_nonempty_line_def lines_of_last split: list.splits)
qed

lemma last_line_loop_end: "last_line_loop lst [] = lst"
  by (subst last_line_loop.simps) (simp add: fgets_def)

lemma last_line_loop_step:
  "fgets 2048 s = Some (line, rest) \<Longrightarrow>
   last_line_loop lst s =
     last_line_loop (if rstrip (cstr line) \<noteq> [] then snprintf_s 2048 (rstrip (cstr line)) else lst) rest"
  by (subst last_line_loop.simps) (simp add: Let_def)

text \<open>
  The loop of \<open>read_last_line\<close> against the last non-empty line: on a text file the
  loop ends with that line in \<open>last\<close>, or with \<open>last\<close> as it was when there is none.
\<close>

lemma last_line_loop_spec:
  assumes "text_file doc"
  shows "last_line_loop lst doc = (case last_nonempty_line doc of None \<Rightarrow> lst | Some l \<Rightarrow> l)"
  using assms
proof (induction doc arbitrary: lst rule: length_induct)
  case (1 doc)
  show ?case
  proof (cases doc rule: text_cases)
    case last_line
    show ?thesis
    proof (cases "doc = []")
      case True
      then show ?thesis
        by (simp add: last_line_loop_end last_nonempty_line_last rstrip_def)
    next
      case False
      have len: "length doc \<le> 2047"
        using "1.prems" last_line False by (simp add: text_file_def lines_of_last)
      have c: "cstr doc = doc" using "1.prems" by (simp add: text_file_def cstr_c_string)
      have "length (rstrip doc) \<le> 2047" using rstrip_length [of doc] len by simp
      then have "snprintf_s 2048 (rstrip doc) = rstrip doc" by (simp add: snprintf_s_def)
      then show ?thesis
        using last_line_loop_step [OF fgets_last_line [OF last_line False len], of lst]
        by (simp add: c last_line_loop_end last_nonempty_line_last [OF last_line])
    qed
  next
    case (line l rest)
    have tf: "text_file rest" and len: "length l \<le> 2047" and cl: "c_string l"
      using "1.prems" line
      by (simp_all add: text_file_def lines_of_line c_string_append c_string_def)
    have IH: "last_line_loop lst' rest =
        (case last_nonempty_line rest of None \<Rightarrow> lst' | Some l \<Rightarrow> l)" for lst'
      using "1.IH" tf line(1) by simp
    have c: "cstr (l @ [LF]) = l @ [LF]" "cstr l = l" "cstr [LF] = [LF]"
      using cl by (simp_all add: cstr_c_string c_string_append c_string_def)
    have "length (rstrip l) \<le> 2047" using rstrip_length [of l] len by simp
    then have sn: "snprintf_s 2048 (rstrip l) = rstrip l" by (simp add: snprintf_s_def)
    define lst' where "lst' = (if rstrip l \<noteq> [] then rstrip l else lst)"
    have "last_line_loop lst doc = last_line_loop lst' rest"
    proof (cases "length l < 2047")
      case True
      show ?thesis
        using last_line_loop_step [OF fgets_line [OF line(2) True, of rest], of lst]
        by (simp add: line(1) c rstrip_LF sn lst'_def)
    next
      case False
      then have full: "length l = 2047" using len by simp
      have "last_line_loop lst doc = last_line_loop lst' (LF # rest)"
        using last_line_loop_step [OF fgets_full_line [OF line(2) full, of rest], of lst]
        by (simp add: line(1) c sn lst'_def)
      also have "\<dots> = last_line_loop lst' rest"
        using last_line_loop_step [OF fgets_line [of "[]" rest], of lst']
        by (simp add: c rstrip_only_LF)
      finally show ?thesis .
    qed
    then show ?thesis
      by (simp add: IH line(1) last_nonempty_line_Cons [OF line(2)] lst'_def split: option.splits)
  qed
qed

lemma last_nonempty_line_Some:
  assumes "last_nonempty_line doc = Some l"
  shows "l \<noteq> [] \<and> (\<exists>l' \<in> set (lines_of doc). l = rstrip l')"
proof -
  from assms obtain x xs where f: "filter (\<lambda>l. l \<noteq> []) (map rstrip (lines_of doc)) = x # xs"
    and l: "l = last (x # xs)"
    by (auto simp: last_nonempty_line_def split: list.splits)
  have "last (x # xs) \<in> set (x # xs)" by (rule last_in_set) simp
  then have "l \<in> set (filter (\<lambda>l. l \<noteq> []) (map rstrip (lines_of doc)))"
    by (simp only: f l)
  then show ?thesis by auto
qed

lemma read_last_line_spec:
  assumes "fs path = Some doc" "text_file doc"
  shows "read_last_line fs path 2048 = last_nonempty_line doc"
proof (cases "last_nonempty_line doc")
  case None
  then show ?thesis
    using assms by (simp add: read_last_line_def last_line_loop_spec)
next
  case (Some l)
  from last_nonempty_line_Some [OF Some] obtain l' where
    ne: "l \<noteq> []" and l': "l' \<in> set (lines_of doc)" "l = rstrip l'" by blast
  have "length l \<le> 2047"
    using l' assms(2) rstrip_length [of l'] by (auto simp: text_file_def)
  then show ?thesis
    using assms Some ne by (simp add: read_last_line_def last_line_loop_spec snprintf_s_def)
qed

lemma stored_line_read:
  assumes "readable_text fs path"
  shows "read_last_line fs path 2048 = stored_line fs path"
proof (cases "fs path")
  case None
  then show ?thesis by (simp add: read_last_line_def stored_line_def)
next
  case (Some doc)
  then show ?thesis
    using assms read_last_line_spec [of fs path doc]
    by (simp add: stored_line_def readable_text_def)
qed

lemma stored_line_length:
  assumes "readable_text fs path" "stored_line fs path = Some l"
  shows "length l \<le> 2047"
proof -
  from assms obtain doc where d: "fs path = Some doc" "text_file doc"
    "last_nonempty_line doc = Some l"
    by (auto simp: stored_line_def readable_text_def split: option.splits)
  from last_nonempty_line_Some [OF d(3)] obtain l' where
    "l' \<in> set (lines_of doc)" "l = rstrip l'" by blast
  then show ?thesis using d(2) rstrip_length [of l'] by (auto simp: text_file_def)
qed

lemma split_lines_append:
  assumes "old \<noteq> []" "last old = LF"
  shows "split_lines cur (old @ t) = split_lines cur old @ split_lines [] t"
  using assms
proof (induction old arbitrary: cur)
  case Nil
  then show ?case by simp
next
  case (Cons c old)
  show ?case
  proof (cases "old = []")
    case True
    with Cons.prems show ?thesis by simp
  next
    case False
    with Cons.prems have "last old = LF" by simp
    with False Cons.IH show ?thesis by simp
  qed
qed

lemma lines_of_append:
  assumes "old = [] \<or> last old = LF"
  shows "lines_of (old @ t) = lines_of old @ lines_of t"
proof (cases "old = []")
  case True
  then show ?thesis by (simp add: lines_of_def)
next
  case False
  with assms show ?thesis by (simp add: lines_of_def split_lines_append)
qed

lemma last_of_snoc_case:
  "(case xs @ [y] of [] \<Rightarrow> None | l # ls \<Rightarrow> Some (last (l # ls))) = Some y"
  by (cases xs) simp_all

lemma last_nonempty_line_append:
  assumes "old = [] \<or> last old = LF" "LF \<notin> set l" "rstrip l \<noteq> []"
  shows "last_nonempty_line (old @ l @ [LF]) = Some (rstrip l)"
proof -
  have "lines_of (l @ [LF]) = [l]"
    using lines_of_line [OF assms(2), of "[]"] by (simp add: lines_of_def)
  then have "lines_of (old @ l @ [LF]) = lines_of old @ [l]"
    using lines_of_append [OF assms(1), of "l @ [LF]"] by simp
  then show ?thesis
    using assms(3) by (simp add: last_nonempty_line_def last_of_snoc_case)
qed

lemma text_file_append:
  assumes "text_file old" "old = [] \<or> last old = LF" "c_string l" "LF \<notin> set l" "length l \<le> 2047"
  shows "text_file (old @ l @ [LF])"
proof -
  have "lines_of (l @ [LF]) = [l]"
    using lines_of_line [OF assms(4), of "[]"] by (simp add: lines_of_def)
  then have "lines_of (old @ l @ [LF]) = lines_of old @ [l]"
    using lines_of_append [OF assms(2), of "l @ [LF]"] by simp
  then show ?thesis
    using assms(1,3,5) by (auto simp: text_file_def c_string_append c_string_def)
qed

lemma text_file_line:
  assumes "c_string l" "LF \<notin> set l" "length l \<le> 2047"
  shows "text_file (l @ [LF])"
proof -
  have "text_file []" by (simp add: text_file_def c_string_def lines_of_def)
  from text_file_append [OF this _ assms] show ?thesis by simp
qed

lemma rstrip_replicate: "c \<noteq> LF \<Longrightarrow> c \<noteq> CR \<Longrightarrow> rstrip (replicate n c) = replicate n c"
  by (cases n) (simp_all add: rstrip_id)

lemma last_nonempty_line_replicate:
  assumes "c \<noteq> LF" "c \<noteq> CR" "0 < n"
  shows "last_nonempty_line (replicate n c @ [LF]) = Some (replicate n c)"
proof -
  have "LF \<notin> set (replicate n c)" using assms(1) by auto
  from last_nonempty_line_append [of "[]", OF _ this] show ?thesis
    using assms by (simp add: rstrip_replicate)
qed

lemma split_lines_chars:
  "l \<in> set (split_lines cur s) \<Longrightarrow> set l \<subseteq> set cur \<union> set s"
proof (induction s arbitrary: cur)
  case Nil
  then show ?case by (simp split: if_splits)
next
  case (Cons c s)
  show ?case
  proof (cases "c = LF")
    case True
    with Cons.prems have "l = cur \<or> l \<in> set (split_lines [] s)" by simp
    then show ?thesis using Cons.IH [of "[]"] by auto
  next
    case False
    with Cons.prems have "l \<in> set (split_lines (cur @ [c]) s)" by simp
    then show ?thesis using Cons.IH [of "cur @ [c]"] by auto
  qed
qed

lemma rstrip_blank: "set l \<subseteq> {CR, LF} \<Longrightarrow> rstrip l = []"
  by (auto simp: rstrip_def dropWhile_eq_Nil_conv)

lemma last_nonempty_line_blank:
  assumes "doc = [] \<or> last doc = LF" and "set blank \<subseteq> {CR, LF}"
  shows "last_nonempty_line (doc @ blank) = last_nonempty_line doc"
proof -
  have "rstrip l = []" if "l \<in> set (lines_of blank)" for l
    using split_lines_chars [of l "[]" blank] that assms(2)
    by (intro rstrip_blank) (auto simp: lines_of_def)
  then have "filter (\<lambda>l. l \<noteq> []) (map rstrip (lines_of blank)) = []"
    by (auto simp: filter_empty_conv)
  then show ?thesis
    by (simp add: last_nonempty_line_def lines_of_append [OF assms(1)])
qed

lemma fgets_full_chunk:
  assumes "LF \<notin> set xs" "length xs = 2047"
  shows "fgets 2048 (xs @ ys) = Some (xs, ys)"
proof -
  have "takeWhile (\<lambda>c. c \<noteq> LF) (xs @ ys) = xs @ takeWhile (\<lambda>c. c \<noteq> LF) ys"
    by (intro takeWhile_append2) (use assms(1) in auto)
  then show ?thesis using assms(2) by (auto simp: fgets_def Let_def)
qed

section \<open>Finding the tag in a history entry\<close>

lemma strstr_first:
  assumes "occurs_at needle hay k" and "\<forall>j<k. \<not> occurs_at needle hay j"
  shows "strstr hay needle = Some (drop k hay)"
  using assms
proof (induction hay arbitrary: k)
  case Nil
  then show ?case by (simp add: occurs_at_def)
next
  case (Cons c hay)
  show ?case
  proof (cases k)
    case 0
    with Cons.prems(1) show ?thesis by (simp add: occurs_at_def)
  next
    case (Suc k')
    with Cons.prems(2) have "\<not> occurs_at needle (c # hay) 0" by simp
    moreover from Cons.prems(1) Suc have "length needle \<le> length (c # hay)"
      by (simp add: occurs_at_def)
    ultimately have no: "take (length needle) (c # hay) \<noteq> needle"
      by (simp add: occurs_at_def)
    have "occurs_at needle hay k'"
      using Cons.prems(1) Suc by (simp add: occurs_at_def)
    moreover have "\<forall>j<k'. \<not> occurs_at needle hay j"
    proof (intro allI impI)
      fix j assume "j < k'"
      then have "\<not> occurs_at needle (c # hay) (Suc j)" using Cons.prems(2) Suc by simp
      then show "\<not> occurs_at needle hay j" by (simp add: occurs_at_def)
    qed
    ultimately have "strstr hay needle = Some (drop k' hay)" by (rule Cons.IH)
    then show ?thesis using no Suc by simp
  qed
qed

lemma strstr_none:
  assumes "\<forall>k. \<not> occurs_at needle hay k"
  shows "strstr hay needle = None"
  using assms
proof (induction hay)
  case Nil
  from Nil [THEN spec, of 0] show ?case by (auto simp: occurs_at_def)
next
  case (Cons c hay)
  have "\<forall>k. \<not> occurs_at needle hay k"
  proof
    fix k
    from Cons.prems have "\<not> occurs_at needle (c # hay) (Suc k)" by blast
    then show "\<not> occurs_at needle hay k" by (simp add: occurs_at_def)
  qed
  then have "strstr hay needle = None" by (rule Cons.IH)
  moreover have "take (length needle) (c # hay) \<noteq> needle"
  proof
    assume t: "take (length needle) (c # hay) = needle"
    have "length needle \<le> length (c # hay)"
      using arg_cong [OF t, of length] by simp
    with t have "occurs_at needle (c # hay) 0" by (simp add: occurs_at_def)
    with Cons.prems show False by blast
  qed
  ultimately show ?case by simp
qed

lemma take_drop_hd:
  assumes "take n (drop j h) = c # cs"
  shows "h ! j = c"
proof -
  from assms have "drop j h \<noteq> []" by auto
  then have "j < length h" by simp
  then have "drop j h = h ! j # drop (Suc j) h" by (simp add: Cons_nth_drop_Suc)
  with assms show ?thesis by (cases n) auto
qed

text \<open>Where the tag stands in a history entry whose timestamp has no letter p.\<close>

lemma first_payload:
  assumes "CHR ''p'' \<notin> set pre"
  shows "occurs_at ''payload='' (pre @ '' payload='' @ v) (length pre + 1)"
    and "\<forall>j < length pre + 1. \<not> occurs_at ''payload='' (pre @ '' payload='' @ v) j"
proof -
  show "occurs_at ''payload='' (pre @ '' payload='' @ v) (length pre + 1)"
    by (simp add: occurs_at_def)
  show "\<forall>j < length pre + 1. \<not> occurs_at ''payload='' (pre @ '' payload='' @ v) j"
  proof (intro allI impI notI)
    fix j assume j: "j < length pre + 1"
      and o: "occurs_at ''payload='' (pre @ '' payload='' @ v) j"
    let ?h = "pre @ '' payload='' @ v"
    from o have "take (length ''payload='') (drop j ?h) = CHR ''p'' # ''ayload=''"
      by (simp add: occurs_at_def)
    then have "?h ! j = CHR ''p''" by (rule take_drop_hd)
    moreover have "?h ! j \<noteq> CHR ''p''"
    proof (cases "j < length pre")
      case True
      then have "?h ! j \<in> set pre" by (simp add: nth_append)
      then show ?thesis using assms by auto
    next
      case False
      then have "j = length pre" using j by simp
      then show ?thesis by (simp add: nth_append)
    qed
    ultimately show False by contradiction
  qed
qed

lemma timestamp_text_chars:
  assumes "timestamp_text s" and "c \<notin> set ''0123456789-:TZ''"
  shows "c \<notin> set s"
  using assms unfolding timestamp_text_def by blast

section \<open>Writing the two files\<close>

text \<open>
  C3, amended. \<open>write_current_and_history\<close> always attempts the overwrite of the
  current-state file, and attempts the append to the history log only if opening and
  writing the current-state file succeeded. When opening the current-state file fails, no
  file changes and no other call is made. A call that returns 0 has made all six library
  calls, with the value and a line feed for the current-state file and the line
  \<open><timestamp> payload=<value>\<close> for the history log. When each \<open>fclose\<close> succeeds: the
  append is attempted exactly when the first write succeeded; the function returns \<open>-1\<close>
  exactly when the first write fails or the attempted second write fails, and 0
  otherwise; after a return of 0, when the two paths name different files, the
  current-state file holds exactly the value and a line feed, the history log its old
  content and that one line more, and every other file is as it was; and when the second
  write fails, the current-state file keeps the new value: the write that succeeded is not
  rolled back. What the function returns when an \<open>fclose\<close> fails is not part of this
  statement.
\<close>

theorem write_current_and_history_outcome:
  "write_current_and_history env fs current history v = (ret, fs', calls) \<longrightarrow>
     (ret = 0 \<or> ret = - 1)
     \<and> Fopen current ''w'' \<in> set calls
     \<and> (Fopen history ''a'' \<in> set calls \<longrightarrow>
          \<not> fopen_current_fails env \<and> \<not> fprintf_current_fails env)
     \<and> (fopen_current_fails env \<longrightarrow> fs' = fs \<and> calls = [Fopen current ''w''])
     \<and> (ret = 0 \<longrightarrow>
          calls = [Fopen current ''w'', Fprintf current (v @ [LF]), Fclose current,
                   Fopen history ''a'', Fprintf history (iso env @ '' payload='' @ v @ [LF]),
                   Fclose history])
     \<and> (\<not> fclose_current_fails env \<and> \<not> fclose_history_fails env \<longrightarrow>
          (Fopen history ''a'' \<in> set calls \<longleftrightarrow>
             \<not> fopen_current_fails env \<and> \<not> fprintf_current_fails env)
          \<and> (ret = - 1 \<longleftrightarrow>
             fopen_current_fails env \<or> fprintf_current_fails env
             \<or> (Fopen history ''a'' \<in> set calls
                 \<and> (fopen_history_fails env \<or> fprintf_history_fails env)))
          \<and> (ret = 0 \<and> \<not> names_same_file env current history \<longrightarrow>
               fs' current = Some (v @ [LF])
               \<and> fs' history = Some ((case fs history of None \<Rightarrow> [] | Some t \<Rightarrow> t)
                                      @ iso env @ '' payload='' @ v @ [LF])
               \<and> (\<forall>q. \<not> names_same_file env q current \<and> \<not> names_same_file env q history \<longrightarrow>
                      fs' q = fs q))
          \<and> (ret = - 1 \<and> Fopen history ''a'' \<in> set calls
               \<and> \<not> names_same_file env current history \<longrightarrow>
               fs' current = Some (v @ [LF])))"
proof (intro impI)
  assume w: "write_current_and_history env fs current history v = (ret, fs', calls)"
  let ?goal = "(ret = 0 \<or> ret = - 1)
     \<and> Fopen current ''w'' \<in> set calls
     \<and> (Fopen history ''a'' \<in> set calls \<longrightarrow>
          \<not> fopen_current_fails env \<and> \<not> fprintf_current_fails env)
     \<and> (fopen_current_fails env \<longrightarrow> fs' = fs \<and> calls = [Fopen current ''w''])
     \<and> (ret = 0 \<longrightarrow>
          calls = [Fopen current ''w'', Fprintf current (v @ [LF]), Fclose current,
                   Fopen history ''a'', Fprintf history (iso env @ '' payload='' @ v @ [LF]),
                   Fclose history])
     \<and> (\<not> fclose_current_fails env \<and> \<not> fclose_history_fails env \<longrightarrow>
          (Fopen history ''a'' \<in> set calls \<longleftrightarrow>
             \<not> fopen_current_fails env \<and> \<not> fprintf_current_fails env)
          \<and> (ret = - 1 \<longleftrightarrow>
             fopen_current_fails env \<or> fprintf_current_fails env
             \<or> (Fopen history ''a'' \<in> set calls
                 \<and> (fopen_history_fails env \<or> fprintf_history_fails env)))
          \<and> (ret = 0 \<and> \<not> names_same_file env current history \<longrightarrow>
               fs' current = Some (v @ [LF])
               \<and> fs' history = Some ((case fs history of None \<Rightarrow> [] | Some t \<Rightarrow> t)
                                      @ iso env @ '' payload='' @ v @ [LF])
               \<and> (\<forall>q. \<not> names_same_file env q current \<and> \<not> names_same_file env q history \<longrightarrow>
                      fs' q = fs q))
          \<and> (ret = - 1 \<and> Fopen history ''a'' \<in> set calls
               \<and> \<not> names_same_file env current history \<longrightarrow>
               fs' current = Some (v @ [LF])))"
  consider (A) "fopen_current_fails env"
    | (B) "\<not> fopen_current_fails env" "fprintf_current_fails env"
    | (C) "\<not> fopen_current_fails env" "\<not> fprintf_current_fails env" "fopen_history_fails env"
    | (D) "\<not> fopen_current_fails env" "\<not> fprintf_current_fails env"
          "\<not> fopen_history_fails env" "fprintf_history_fails env"
    | (E) "\<not> fopen_current_fails env" "\<not> fprintf_current_fails env"
          "\<not> fopen_history_fails env" "\<not> fprintf_history_fails env"
    by blast
  then show ?goal
  proof cases
    case A
    with w have "ret = - 1" "fs' = fs" "calls = [Fopen current ''w'']"
      by (simp_all add: write_current_and_history_def)
    with A show ?thesis by simp
  next
    case B
    with w have "ret = - 1" "calls = [Fopen current ''w'', Fprintf current (v @ [LF]), Fclose current]"
      by (simp_all add: write_current_and_history_def Let_def)
    with B show ?thesis by simp
  next
    case C
    with w have r: "ret = - 1"
      "calls = [Fopen current ''w'', Fprintf current (v @ [LF]), Fclose current, Fopen history ''a'']"
      "fs' = store env (store env fs current [])
               current (flushed (fclose_current_fails env) (current_short env) (v @ [LF]))"
      by (simp_all add: write_current_and_history_def Let_def)
    have "fs' current = Some (v @ [LF])" if "\<not> fclose_current_fails env"
      using that by (simp add: r(3) store_def flushed_def names_same_file_def)
    with C r(1,2) show ?thesis by simp
  next
    case D
    define fs2 where "fs2 = store env (store env fs current [])
               current (flushed (fclose_current_fails env) (current_short env) (v @ [LF]))"
    define old where "old = (case fs2 history of None \<Rightarrow> [] | Some t \<Rightarrow> t)"
    from D w have r: "ret = - 1"
      "calls = [Fopen current ''w'', Fprintf current (v @ [LF]), Fclose current, Fopen history ''a'',
                Fprintf history (iso env @ '' payload='' @ v @ [LF]), Fclose history]"
      "fs' = store env (store env fs2 history old) history
               (old @ flushed True (history_short env) (iso env @ '' payload='' @ v @ [LF]))"
      by (simp_all add: write_current_and_history_def Let_def fs2_def old_def)
    have "fs' current = Some (v @ [LF])"
      if "\<not> fclose_current_fails env" "\<not> names_same_file env current history"
      using that by (simp add: r(3) fs2_def store_def flushed_def names_same_file_def)
    with D r(1,2) show ?thesis by simp
  next
    case E
    define fs2 where "fs2 = store env (store env fs current [])
               current (flushed (fclose_current_fails env) (current_short env) (v @ [LF]))"
    define old where "old = (case fs2 history of None \<Rightarrow> [] | Some t \<Rightarrow> t)"
    from E w have r: "ret = 0"
      "calls = [Fopen current ''w'', Fprintf current (v @ [LF]), Fclose current, Fopen history ''a'',
                Fprintf history (iso env @ '' payload='' @ v @ [LF]), Fclose history]"
      "fs' = store env (store env fs2 history old) history
               (old @ flushed (fclose_history_fails env) (history_short env)
                        (iso env @ '' payload='' @ v @ [LF]))"
      by (simp_all add: write_current_and_history_def Let_def fs2_def old_def)
    have c: "fs' current = Some (v @ [LF])"
      if "\<not> fclose_current_fails env" "\<not> names_same_file env current history"
      using that by (simp add: r(3) fs2_def store_def flushed_def names_same_file_def)
    have o: "old = (case fs history of None \<Rightarrow> [] | Some t \<Rightarrow> t)"
      if "\<not> names_same_file env current history"
      using that by (auto simp: old_def fs2_def store_def names_same_file_def)
    have h: "fs' history = Some ((case fs history of None \<Rightarrow> [] | Some t \<Rightarrow> t)
                                 @ iso env @ '' payload='' @ v @ [LF])"
      if "\<not> fclose_history_fails env" "\<not> names_same_file env current history"
      using that o by (simp add: r(3) store_def flushed_def names_same_file_def)
    have q: "fs' q = fs q"
      if "\<not> names_same_file env q current" "\<not> names_same_file env q history" for q
      using that by (simp add: r(3) fs2_def store_def)
    from E r(1,2) c h q show ?thesis by simp
  qed
qed

theorem write_current_and_history_outcome_witness:
  "write_current_and_history history_unwritable Map.empty default_current default_data ''23.5''
     = (- 1, [default_current \<mapsto> ''23.5'' @ [LF]],
        [Fopen default_current ''w'', Fprintf default_current (''23.5'' @ [LF]),
         Fclose default_current, Fopen default_data ''a''])
   \<and> [default_current \<mapsto> ''23.5'' @ [LF]] default_current = Some (''23.5'' @ [LF])
   \<and> write_current_and_history no_failure [default_data \<mapsto> ''old'' @ [LF]]
        default_current default_data ''23.5''
     = (0, [default_data \<mapsto> ''old'' @ [LF] @ ''2025-01-01T00:00:00Z payload=23.5'' @ [LF],
            default_current \<mapsto> ''23.5'' @ [LF]],
        [Fopen default_current ''w'', Fprintf default_current (''23.5'' @ [LF]),
         Fclose default_current, Fopen default_data ''a'',
         Fprintf default_data (''2025-01-01T00:00:00Z payload=23.5'' @ [LF]),
         Fclose default_data])"
proof -
  let ?fs1 = "[default_current \<mapsto> ''23.5'' @ [LF]]"
  let ?c1 = "[Fopen default_current ''w'', Fprintf default_current (''23.5'' @ [LF]),
         Fclose default_current, Fopen default_data ''a'']"
  let ?fs0 = "[default_data \<mapsto> ''old'' @ [LF]]"
  let ?fs2 = "[default_data \<mapsto> ''old'' @ [LF] @ ''2025-01-01T00:00:00Z payload=23.5'' @ [LF],
            default_current \<mapsto> ''23.5'' @ [LF]]"
  let ?c2 = "[Fopen default_current ''w'', Fprintf default_current (''23.5'' @ [LF]),
         Fclose default_current, Fopen default_data ''a'',
         Fprintf default_data (''2025-01-01T00:00:00Z payload=23.5'' @ [LF]),
         Fclose default_data]"
  have e: "write_current_and_history history_unwritable Map.empty default_current default_data ''23.5''
     = (- 1, ?fs1, ?c1)"
    by (simp add: write_current_and_history_def Let_def store_def flushed_def
        names_same_file_def fun_eq_iff)
  have f: "write_current_and_history no_failure ?fs0 default_current default_data ''23.5''
     = (0, ?fs2, ?c2)"
    by (simp add: write_current_and_history_def Let_def store_def flushed_def
        names_same_file_def fun_eq_iff)
  show ?thesis
    using e f
      write_current_and_history_outcome
        [of history_unwritable Map.empty default_current default_data "''23.5''" "- 1" ?fs1 ?c1]
      write_current_and_history_outcome
        [of no_failure ?fs0 default_current default_data "''23.5''" 0 ?fs2 ?c2]
    by simp
qed

text \<open>
  C3 as stated fails when the first write fails: with a current-state file that cannot be
  opened for writing, the function returns \<open>-1\<close> after that one \<open>fopen\<close>, and makes no
  call on the history log.
\<close>

theorem history_not_attempted_counterexample:
  "write_current_and_history current_unwritable Map.empty default_current default_data ''23.5''
     = (- 1, Map.empty, [Fopen default_current ''w''])"
  by (simp add: write_current_and_history_def Let_def)

text \<open>
  The result of \<open>fclose\<close> is dropped. On a full disk both files open and both texts fit
  the buffers of their streams; nothing is written out, and the function returns 0 with
  both files empty.
\<close>

lemma unchecked_fclose_example:
  "write_current_and_history disk_full Map.empty default_current default_data ''23.5''
     = (0, [default_current \<mapsto> [], default_data \<mapsto> []],
        [Fopen default_current ''w'', Fprintf default_current (''23.5'' @ [LF]),
         Fclose default_current, Fopen default_data ''a'',
         Fprintf default_data (''2025-01-01T00:00:00Z payload=23.5'' @ [LF]),
         Fclose default_data])"
  by (simp add: write_current_and_history_def Let_def store_def flushed_def names_same_file_def
      fun_eq_iff)

section \<open>GET /sensor in the persistent server\<close>

lemma get_sensor_unfold:
  assumes "req_code r = COAP_GET" "uri_path r = ''sensor''"
  shows "dispatch_persist CURR DATA env fs r =
     (case read_last_line fs CURR 2048 of
        Some line \<Rightarrow> (fs, COAP_205_CONTENT, snprintf_s 1200 line)
      | None \<Rightarrow>
          (case read_last_line fs DATA 2048 of
             Some line \<Rightarrow> (fs, COAP_205_CONTENT, snprintf_s 1200 (extract_state line [] 2048))
           | None \<Rightarrow> (fs, COAP_205_CONTENT, ''NO_DATA'')))"
  using assms by (simp add: dispatch_persist_def)

text \<open>
  C5, amended. On files that are absent or text files (no NUL, lines of at most 2047
  bytes), GET /sensor in the persistent server leaves the files as they are and answers
  2.05 with: the last non-empty line of the current-state file, cut to the 1199 bytes that
  fit the response text, if there is one; otherwise, for a last non-empty history line in
  which \<open>payload=\<close> first stands at position \<open>k\<close>, what follows that tag, cut to 1199
  bytes; and \<open>NO_DATA\<close> when neither file has a non-empty line.
\<close>

theorem get_sensor_persist:
  assumes "is_get_sensor r"
  shows "fst (dispatch_persist CURR DATA env fs r) = fs
    \<and> fst (snd (dispatch_persist CURR DATA env fs r)) = COAP_205_CONTENT
    \<and> (readable_text fs CURR \<longrightarrow>
        (\<forall>l. stored_line fs CURR = Some l \<longrightarrow>
          snd (snd (dispatch_persist CURR DATA env fs r)) = take 1199 l))
    \<and> (readable_text fs CURR \<and> readable_text fs DATA \<longrightarrow>
        (\<forall>l k. stored_line fs CURR = None \<and> stored_line fs DATA = Some l
          \<and> occurs_at ''payload='' l k \<and> (\<forall>j<k. \<not> occurs_at ''payload='' l j) \<longrightarrow>
          snd (snd (dispatch_persist CURR DATA env fs r)) = take 1199 (drop (k + 8) l))
        \<and> (stored_line fs CURR = None \<and> stored_line fs DATA = None \<longrightarrow>
          snd (snd (dispatch_persist CURR DATA env fs r)) = ''NO_DATA''))"
proof -
  have g: "req_code r = COAP_GET" "uri_path r = ''sensor''"
    using assms by (simp_all add: is_get_sensor_def)
  note u = get_sensor_unfold [OF g, of CURR DATA env fs]
  have a: "fst (dispatch_persist CURR DATA env fs r) = fs
    \<and> fst (snd (dispatch_persist CURR DATA env fs r)) = COAP_205_CONTENT"
    unfolding u by (simp split: option.splits)
  have b: "snd (snd (dispatch_persist CURR DATA env fs r)) = take 1199 l"
    if "readable_text fs CURR" "stored_line fs CURR = Some l" for l
    unfolding u using that by (simp add: stored_line_read snprintf_s_def)
  have e: "extract_state l [] 2048 = drop (k + 8) l"
    if "readable_text fs DATA" "stored_line fs DATA = Some l" "occurs_at ''payload='' l k"
      "\<forall>j<k. \<not> occurs_at ''payload='' l j" for l k
  proof -
    have "length (drop (k + 8) l) \<le> 2047"
      using stored_line_length [OF that(1,2)] by simp
    moreover have l8: "length ''payload='' = 8" by simp
    have "drop (length ''payload='') (drop k l) = drop (k + 8) l"
      by (simp only: drop_drop l8 add.commute)
    ultimately have "snprintf_s 2048 (drop (length ''payload='') (drop k l)) = drop (k + 8) l"
      by (simp add: snprintf_s_def)
    then show ?thesis
      using strstr_first [OF that(3,4)] by (simp only: extract_state_def) simp
  qed
  have c: "snd (snd (dispatch_persist CURR DATA env fs r)) = take 1199 (drop (k + 8) l)"
    if "readable_text fs CURR" "readable_text fs DATA" "stored_line fs CURR = None"
      "stored_line fs DATA = Some l" "occurs_at ''payload='' l k"
      "\<forall>j<k. \<not> occurs_at ''payload='' l j" for l k
    unfolding u using that e [OF that(2,4,5,6)] by (simp add: stored_line_read snprintf_s_def)
  have d: "snd (snd (dispatch_persist CURR DATA env fs r)) = ''NO_DATA''"
    if "readable_text fs CURR" "readable_text fs DATA" "stored_line fs CURR = None"
      "stored_line fs DATA = None"
    unfolding u using that by (simp add: stored_line_read)
  show ?thesis using a b c d by blast
qed

theorem get_sensor_persist_witness:
  "is_get_sensor (request COAP_GET ''sensor'' None)
   \<and> stored_line [default_data \<mapsto> ''2025-01-01T00:00:00Z payload=23.5'' @ [LF]] default_current = None
   \<and> stored_line [default_data \<mapsto> ''2025-01-01T00:00:00Z payload=23.5'' @ [LF]] default_data
       = Some ''2025-01-01T00:00:00Z payload=23.5''
   \<and> dispatch_persist default_current default_data no_failure
        [default_data \<mapsto> ''2025-01-01T00:00:00Z payload=23.5'' @ [LF]]
        (request COAP_GET ''sensor'' None)
     = ([default_data \<mapsto> ''2025-01-01T00:00:00Z payload=23.5'' @ [LF]],
        COAP_205_CONTENT, ''23.5'')"
proof -
  let ?fs = "[default_data \<mapsto> ''2025-01-01T00:00:00Z payload=23.5'' @ [LF]]"
  let ?g = "request COAP_GET ''sensor'' None"
  let ?l = "''2025-01-01T00:00:00Z'' @ '' payload='' @ ''23.5''"
  have h1: "is_get_sensor ?g" by (simp add: is_get_sensor_def)
  have h3: "readable_text ?fs default_current" by (simp add: readable_text_def)
  have h4: "readable_text ?fs default_data"
    by (simp add: readable_text_def text_file_def c_string_def lines_of_def)
  have c: "stored_line ?fs default_current = None" by (simp add: stored_line_def)
  have d: "stored_line ?fs default_data = Some ?l"
    by (simp add: stored_line_def last_nonempty_line_def lines_of_def rstrip_def)
  have p: "CHR ''p'' \<notin> set ''2025-01-01T00:00:00Z''" by simp
  have n: "length ''2025-01-01T00:00:00Z'' + 1 = 21" by simp
  have o: "occurs_at ''payload='' ?l 21" "\<forall>j<21. \<not> occurs_at ''payload='' ?l j"
    using first_payload [OF p, of "''23.5''"] unfolding n by blast+
  have "snd (snd (dispatch_persist default_current default_data no_failure ?fs ?g))
      = take 1199 (drop (21 + 8) ?l)"
    using get_sensor_persist [OF h1, of default_current default_data no_failure ?fs]
      h3 h4 c d o by blast
  moreover have "fst (dispatch_persist default_current default_data no_failure ?fs ?g) = ?fs"
    and "fst (snd (dispatch_persist default_current default_data no_failure ?fs ?g))
      = COAP_205_CONTENT"
    using get_sensor_persist [OF h1, of default_current default_data no_failure ?fs] by blast+
  ultimately have "dispatch_persist default_current default_data no_failure ?fs ?g
      = (?fs, COAP_205_CONTENT, take 1199 (drop (21 + 8) ?l))"
    by (metis prod.collapse)
  then show ?thesis using h1 c d by simp
qed

text \<open>
  C5 as stated fails on a long line: when the current-state file holds one line of 1200
  characters, the answer carries its first 1199 characters, not the line.
\<close>

theorem long_current_line_counterexample:
  "stored_line [default_current \<mapsto> replicate 1200 CHR ''7'' @ [LF]] default_current
     = Some (replicate 1200 CHR ''7'')
   \<and> dispatch_persist default_current default_data no_failure
        [default_current \<mapsto> replicate 1200 CHR ''7'' @ [LF]]
        (request COAP_GET ''sensor'' None)
     = ([default_current \<mapsto> replicate 1200 CHR ''7'' @ [LF]],
        COAP_205_CONTENT, replicate 1199 CHR ''7'')
   \<and> replicate 1199 CHR ''7'' \<noteq> replicate 1200 CHR ''7''"
proof -
  let ?fs = "[default_current \<mapsto> replicate 1200 CHR ''7'' @ [LF]]"
  let ?g = "request COAP_GET ''sensor'' None"
  have l: "last_nonempty_line (replicate 1200 CHR ''7'' @ [LF]) = Some (replicate 1200 CHR ''7'')"
    by (rule last_nonempty_line_replicate) simp_all
  have "LF \<notin> set (replicate 1200 CHR ''7'')" by simp
  then have t: "text_file (replicate 1200 CHR ''7'' @ [LF])"
    by (intro text_file_line) (simp_all add: c_string_def)
  have r: "read_last_line ?fs default_current 2048 = Some (replicate 1200 CHR ''7'')"
    using read_last_line_spec [of ?fs default_current, OF _ t] l by simp
  have g: "req_code ?g = COAP_GET" "uri_path ?g = ''sensor''" by simp_all
  have "dispatch_persist default_current default_data no_failure ?fs ?g
      = (?fs, COAP_205_CONTENT, replicate 1199 CHR ''7'')"
    by (simp add: get_sensor_unfold [OF g] r snprintf_s_def)
  moreover have "replicate 1199 CHR ''7'' \<noteq> replicate 1200 CHR ''7''"
    using arg_cong [of "replicate 1199 CHR ''7''" "replicate 1200 CHR ''7''" length] by auto
  ultimately show ?thesis using l by (simp add: stored_line_def)
qed

text \<open>
  C10, amended. On a file that is absent or a text file (no NUL, lines of at most 2047
  bytes), \<open>read_last_line\<close> returns the last non-empty line after stripping the CR and LF
  at the end of each line, and fails when there is none. Blank lines at the end of the
  file, after a line feed, are ignored: the result is that of the file without them. When the current-state file gives no
  line and the last non-empty history line holds no \<open>payload=\<close>, \<open>extract_state\<close> gives
  the entire line, and GET /sensor answers 2.05 with it, cut to the 1199 bytes that fit the
  response text.
\<close>

theorem read_last_line_short_lines:
  "(readable_text fs path \<longrightarrow> read_last_line fs path 2048 = stored_line fs path)
   \<and> (fs path = Some (doc @ blank) \<and> text_file (doc @ blank)
        \<and> (doc = [] \<or> last doc = LF) \<and> set blank \<subseteq> {CR, LF} \<longrightarrow>
        read_last_line fs path 2048 = last_nonempty_line doc)
   \<and> (req_code r = COAP_GET \<and> uri_path r = ''sensor''
        \<and> readable_text fs CURR \<and> readable_text fs DATA
        \<and> stored_line fs CURR = None \<and> stored_line fs DATA = Some l
        \<and> (\<forall>k. \<not> occurs_at ''payload='' l k) \<longrightarrow>
        extract_state l out 2048 = l
        \<and> dispatch_persist CURR DATA env fs r = (fs, COAP_205_CONTENT, take 1199 l))"
proof (intro conjI impI)
  assume "readable_text fs path"
  then show "read_last_line fs path 2048 = stored_line fs path" by (rule stored_line_read)
next
  assume b: "fs path = Some (doc @ blank) \<and> text_file (doc @ blank)
        \<and> (doc = [] \<or> last doc = LF) \<and> set blank \<subseteq> {CR, LF}"
  then have "read_last_line fs path 2048 = last_nonempty_line (doc @ blank)"
    using read_last_line_spec [of fs path "doc @ blank"] by simp
  then show "read_last_line fs path 2048 = last_nonempty_line doc"
    using b by (simp add: last_nonempty_line_blank)
next
  assume a: "req_code r = COAP_GET \<and> uri_path r = ''sensor''
        \<and> readable_text fs CURR \<and> readable_text fs DATA
        \<and> stored_line fs CURR = None \<and> stored_line fs DATA = Some l
        \<and> (\<forall>k. \<not> occurs_at ''payload='' l k)"
  then have g: "req_code r = COAP_GET" "uri_path r = ''sensor''" by simp_all
  have len: "length l \<le> 2047" using stored_line_length [of fs DATA l] a by simp
  have st: "strstr l ''payload='' = None" using a by (intro strstr_none) simp
  then show e: "extract_state l out 2048 = l"
    using len by (simp add: extract_state_def snprintf_s_def)
  have "extract_state l [] 2048 = l"
    using len st by (simp add: extract_state_def snprintf_s_def)
  then show "dispatch_persist CURR DATA env fs r = (fs, COAP_205_CONTENT, take 1199 l)"
    using a by (simp add: get_sensor_unfold [OF g] stored_line_read snprintf_s_def)
qed

theorem read_last_line_short_lines_witness:
  "read_last_line [default_data \<mapsto> ''hello'' @ [CR, LF, LF, CR, LF]] default_data 2048
     = Some ''hello''
   \<and> dispatch_persist default_current default_data no_failure
        [default_data \<mapsto> ''hello'' @ [CR, LF, LF, CR, LF]] (request COAP_GET ''sensor'' None)
     = ([default_data \<mapsto> ''hello'' @ [CR, LF, LF, CR, LF]], COAP_205_CONTENT, ''hello'')"
proof -
  let ?fs = "[default_data \<mapsto> ''hello'' @ [CR, LF, LF, CR, LF]]"
  let ?g = "request COAP_GET ''sensor'' None"
  have h3: "readable_text ?fs default_current" by (simp add: readable_text_def)
  have h4: "readable_text ?fs default_data"
    by (simp add: readable_text_def text_file_def c_string_def lines_of_def)
  have c: "stored_line ?fs default_current = None" by (simp add: stored_line_def)
  have d: "stored_line ?fs default_data = Some ''hello''"
    by (simp add: stored_line_def last_nonempty_line_def lines_of_def rstrip_def)
  have n: "\<forall>k. \<not> occurs_at ''payload='' ''hello'' k" by (simp add: occurs_at_def)
  show ?thesis
    using h3 h4 c d n
      read_last_line_short_lines [of ?fs default_data "''hello'' @ [CR, LF]" "[LF, CR, LF]" ?g
        default_current default_data "''hello''" "[]" no_failure]
    by (simp add: stored_line_def text_file_def c_string_def lines_of_def)
qed

text \<open>
  C10 as stated fails on a line longer than the buffer of \<open>fgets\<close>: a line of 2048
  letters is read as a piece of 2047 and a piece of one, and \<open>read_last_line\<close> returns
  the second piece.
\<close>

theorem long_history_line_counterexample:
  "last_nonempty_line (replicate 2048 CHR ''a'' @ [LF]) = Some (replicate 2048 CHR ''a'')
   \<and> read_last_line [default_data \<mapsto> replicate 2048 CHR ''a'' @ [LF]] default_data 2048
       = Some ''a''"
proof -
  have l: "last_nonempty_line (replicate 2048 CHR ''a'' @ [LF]) = Some (replicate 2048 CHR ''a'')"
    by (rule last_nonempty_line_replicate) simp_all
  have "replicate 2048 CHR ''a'' = replicate 2047 CHR ''a'' @ ''a''"
    using replicate_add [of 2047 1 "CHR ''a''"] by simp
  then have doc: "replicate 2048 CHR ''a'' @ [LF] = replicate 2047 CHR ''a'' @ [CHR ''a'', LF]"
    by simp
  have f1: "fgets 2048 (replicate 2047 CHR ''a'' @ [CHR ''a'', LF])
      = Some (replicate 2047 CHR ''a'', [CHR ''a'', LF])"
    by (rule fgets_full_chunk) simp_all
  have f2: "fgets 2048 [CHR ''a'', LF] = Some ([CHR ''a'', LF], [])"
    by (simp add: fgets_def)
  have c: "cstr (replicate 2047 CHR ''a'') = replicate 2047 CHR ''a''"
    by (intro cstr_c_string) (simp add: c_string_def)
  have "last_line_loop [] (replicate 2047 CHR ''a'' @ [CHR ''a'', LF])
      = last_line_loop (replicate 2047 CHR ''a'') [CHR ''a'', LF]"
    using last_line_loop_step [OF f1, of "[]"]
    by (simp add: c rstrip_replicate snprintf_s_def)
  also have "\<dots> = last_line_loop ''a'' []"
    using last_line_loop_step [OF f2, of "replicate 2047 CHR ''a''"]
    by (simp add: cstr_def rstrip_def snprintf_s_def)
  finally have "last_line_loop [] (replicate 2048 CHR ''a'' @ [LF]) = ''a''"
    by (simp only: doc last_line_loop_end)
  then show ?thesis using l by (simp add: read_last_line_def snprintf_s_def)
qed

section \<open>PUT /sensor, then GET /sensor\<close>

lemma dispatch_no_write: "\<not> is_put_sensor r \<Longrightarrow> fst (dispatch g r) = g"
  by (simp add: dispatch_def is_put_sensor_def Let_def)

lemma dispatch_get:
  "is_get_sensor r \<Longrightarrow> length g \<le> 1199 \<Longrightarrow> dispatch g r = (g, COAP_205_CONTENT, g)"
  by (simp add: dispatch_def is_get_sensor_def snprintf_s_def)

lemma serve_no_write:
  assumes "\<forall>q \<in> set rs. \<not> is_put_sensor q"
  shows "serve g rs = (g, map (\<lambda>q. snd (dispatch g q)) rs)"
  using assms
proof (induction rs)
  case Nil
  then show ?case by simp
next
  case (Cons r rs)
  then have "fst (dispatch g r) = g" by (simp add: dispatch_no_write)
  then obtain code resp where d: "dispatch g r = (g, code, resp)"
    by (cases "dispatch g r") auto
  with Cons show ?case by simp
qed

lemma dispatch_persist_no_write:
  "\<not> is_put_sensor r \<Longrightarrow> \<not> is_post_echo r \<Longrightarrow> fst (dispatch_persist CURR DATA env fs r) = fs"
  by (auto simp: dispatch_persist_def is_put_sensor_def is_post_echo_def Let_def
      split: option.splits)

lemma serve_persist_no_write:
  assumes "\<forall>eq \<in> set ers. \<not> is_put_sensor (snd eq) \<and> \<not> is_post_echo (snd eq)"
  shows "serve_persist CURR DATA fs ers
      = (fs, map (\<lambda>eq. snd (dispatch_persist CURR DATA (fst eq) fs (snd eq))) ers)"
  using assms
proof (induction ers)
  case Nil
  then show ?case by simp
next
  case (Cons er ers)
  obtain env r where er: "er = (env, r)" by (cases er)
  with Cons.prems have "fst (dispatch_persist CURR DATA env fs r) = fs"
    by (simp add: dispatch_persist_no_write)
  then obtain code resp where d: "dispatch_persist CURR DATA env fs r = (fs, code, resp)"
    by (cases "dispatch_persist CURR DATA env fs r") auto
  with Cons er show ?case by simp
qed

lemma zip_map_same: "(x, y) \<in> set (zip xs (map f xs)) \<Longrightarrow> y = f x"
  by (induction xs) auto

lemma put_sensor_volatile:
  assumes "uri_path p = ''sensor''" "req_code p = COAP_PUT"
  shows "dispatch g p = (body_of p, COAP_204_CHANGED, ''UPDATED'')"
  using assms body_of_length [of p] by (simp add: dispatch_def snprintf_s_def)

lemma put_sensor_unfold:
  assumes "req_code p = COAP_PUT" "uri_path p = ''sensor''"
  shows "dispatch_persist CURR DATA env fs p =
     (case write_current_and_history env fs CURR DATA (body_of p) of
        (ret, fs', calls) \<Rightarrow>
          if ret = 0 then (fs', COAP_204_CHANGED, ''UPDATED'')
          else (fs', COAP_500_INTERR, ''WRITE_FAIL''))"
  using assms by (simp add: dispatch_persist_def)

text \<open>What a call that returned 0 has stored, when the texts were written out.\<close>

lemma write_current_and_history_ok:
  assumes w: "write_current_and_history env fs current history v = (0, fs', calls)"
  shows "\<not> fclose_current_fails env \<Longrightarrow> \<not> names_same_file env current history
           \<Longrightarrow> fs' current = Some (v @ [LF])"
    and "\<not> fclose_history_fails env \<Longrightarrow> \<not> names_same_file env current history
           \<Longrightarrow> fs' history = Some ((case fs history of None \<Rightarrow> [] | Some t \<Rightarrow> t)
                                     @ iso env @ '' payload='' @ v @ [LF])"
proof -
  define fs2 where "fs2 = store env (store env fs current [])
             current (flushed (fclose_current_fails env) (current_short env) (v @ [LF]))"
  define old where "old = (case fs2 history of None \<Rightarrow> [] | Some t \<Rightarrow> t)"
  from w have ok: "\<not> fopen_current_fails env" "\<not> fprintf_current_fails env"
    "\<not> fopen_history_fails env" "\<not> fprintf_history_fails env"
    by (simp_all add: write_current_and_history_def Let_def split: if_splits)
  with w have r: "fs' = store env (store env fs2 history old) history
               (old @ flushed (fclose_history_fails env) (history_short env)
                        (iso env @ '' payload='' @ v @ [LF]))"
    by (simp add: write_current_and_history_def Let_def fs2_def old_def)
  show "fs' current = Some (v @ [LF])"
    if "\<not> fclose_current_fails env" "\<not> names_same_file env current history"
    using that by (simp add: r fs2_def store_def flushed_def names_same_file_def)
  have o: "old = (case fs history of None \<Rightarrow> [] | Some t \<Rightarrow> t)"
    if "\<not> names_same_file env current history"
    using that by (auto simp: old_def fs2_def store_def names_same_file_def)
  show "fs' history = Some ((case fs history of None \<Rightarrow> [] | Some t \<Rightarrow> t)
                                     @ iso env @ '' payload='' @ v @ [LF])"
    if "\<not> fclose_history_fails env" "\<not> names_same_file env current history"
    using that o by (simp add: r store_def flushed_def names_same_file_def)
qed

text \<open>After a successful write of a storable value, GET /sensor reads it back.\<close>

lemma get_after_write:
  assumes w: "write_current_and_history env fs CURR DATA v = (0, fs', calls)"
    and fl: "\<not> fclose_current_fails env"
    and ne: "\<not> names_same_file env CURR DATA"
    and v: "storable v" "c_string v" "length v \<le> 1023"
    and e: "v = [] \<longrightarrow> \<not> fclose_history_fails env \<and> appendable_log fs DATA
              \<and> timestamp_text (iso env)"
    and g: "req_code q = COAP_GET" "uri_path q = ''sensor''"
  shows "dispatch_persist CURR DATA env' fs' q = (fs', COAP_205_CONTENT, v)"
proof -
  define old where "old = (case fs DATA of None \<Rightarrow> [] | Some t \<Rightarrow> t)"
  define entry where "entry = iso env @ '' payload='' @ v"
  have fs': "fs' CURR = Some (v @ [LF])"
    by (rule write_current_and_history_ok(1) [OF w fl ne])
  have lf: "LF \<notin> set v" using v(1) by (simp add: storable_def)
  have tc: "text_file (v @ [LF])"
    by (rule text_file_line [OF v(2) lf]) (use v(3) in simp)
  have cur: "read_last_line fs' CURR 2048 = last_nonempty_line (v @ [LF])"
    by (rule read_last_line_spec [of fs' CURR, OF fs' tc])
  have lnl: "last_nonempty_line (v @ [LF]) = (if rstrip v = [] then None else Some (rstrip v))"
    using last_nonempty_line_Cons [OF lf, of "[]"] last_nonempty_line_last [of "[]"]
    by (simp add: rstrip_def)
  have "last v \<noteq> LF" if "v \<noteq> []"
    using last_in_set [OF that] lf by auto
  then have rs: "rstrip v = v"
    using v(1) by (intro rstrip_id) (auto simp: storable_def)
  show ?thesis
  proof (cases "v = []")
    case False
    then show ?thesis
      using v(3) by (simp add: get_sensor_unfold [OF g] cur lnl rs snprintf_s_def)
  next
    case True
    with e have al: "appendable_log fs DATA" and ts: "timestamp_text (iso env)"
      and fh: "\<not> fclose_history_fails env" by simp_all
    have fsd: "fs' DATA = Some (old @ entry @ [LF])"
      using write_current_and_history_ok(2) [OF w fh ne] by (simp add: old_def entry_def)
    have p: "CHR ''p'' \<notin> set (iso env)"
      by (rule timestamp_text_chars [OF ts]) simp
    have l: "LF \<notin> set (iso env)"
      by (rule timestamp_text_chars [OF ts]) simp
    have "CHR 0x00 \<notin> set (iso env)"
      by (rule timestamp_text_chars [OF ts]) simp
    then have z: "c_string (iso env)" by (simp add: c_string_def)
    have n: "length (iso env) \<le> 31" using ts by (simp add: timestamp_text_def)
    have o: "text_file old" "old = [] \<or> last old = LF"
      using al by (auto simp: appendable_log_def old_def text_file_def c_string_def lines_of_def
          split: option.splits)
    have en: "c_string entry" "LF \<notin> set entry" "length entry \<le> 2047" "rstrip entry = entry"
      "entry \<noteq> []"
      using z l n True by (simp_all add: entry_def c_string_append c_string_def rstrip_id)
    have td: "text_file (old @ entry @ [LF])"
      by (rule text_file_append [OF o en(1,2,3)])
    have "read_last_line fs' DATA 2048 = last_nonempty_line (old @ entry @ [LF])"
      by (rule read_last_line_spec [of fs' DATA, OF fsd td])
    also have "\<dots> = Some entry"
      using last_nonempty_line_append [OF o(2) en(2)] en(4,5) by simp
    finally have dat: "read_last_line fs' DATA 2048 = Some entry" .
    have "strstr entry ''payload='' = Some (drop (length (iso env) + 1) entry)"
      unfolding entry_def by (rule strstr_first [OF first_payload [OF p]])
    then have ex: "extract_state entry [] 2048 = []"
      using True by (simp add: extract_state_def entry_def snprintf_s_def)
    have cur0: "read_last_line fs' CURR 2048 = None"
      using cur lnl rs True by simp
    show ?thesis
      using True by (simp add: get_sensor_unfold [OF g] cur0 dat ex snprintf_s_def)
  qed
qed

text \<open>
  C4, amended. In the volatile server PUT /sensor with body \<open>v\<close> (the request body as
  the server reads it: at most 1023 bytes, up to the first NUL) always answers 2.04
  \<open>UPDATED\<close>, and every GET /sensor after it, with no write in between, answers 2.05 with
  body \<open>v\<close>. In the persistent server PUT /sensor answers 2.04 \<open>UPDATED\<close> when no
  library call of the write fails, and the same holds after a PUT that answered 2.04 with
  both \<open>fclose\<close> calls succeeding, when the two paths name different files and \<open>v\<close> has
  no line feed and no carriage return at its end; for the empty \<open>v\<close>, which is read back
  from the history log, when that log was absent or a text file ending with a line feed
  and the timestamp is a timestamp text. What GET /sensor answers after a PUT whose
  \<open>fclose\<close> failed is not part of this statement.
\<close>

theorem put_then_get_sensor:
  assumes "is_put_sensor p"
    and "\<forall>q \<in> set rs. \<not> is_put_sensor q"
    and "\<forall>eq \<in> set ers. \<not> is_put_sensor (snd eq) \<and> \<not> is_post_echo (snd eq)"
  shows "dispatch g p = (body_of p, COAP_204_CHANGED, ''UPDATED'')
    \<and> fst (serve (body_of p) rs) = body_of p
    \<and> length (snd (serve (body_of p) rs)) = length rs
    \<and> (\<forall>(q, out) \<in> set (zip rs (snd (serve (body_of p) rs))).
          is_get_sensor q \<longrightarrow> out = (COAP_205_CONTENT, body_of p))
    \<and> (\<not> fopen_current_fails env \<and> \<not> fprintf_current_fails env
          \<and> \<not> fclose_current_fails env \<and> \<not> fopen_history_fails env
          \<and> \<not> fprintf_history_fails env \<and> \<not> fclose_history_fails env \<longrightarrow>
          snd (dispatch_persist CURR DATA env fs p) = (COAP_204_CHANGED, ''UPDATED''))
    \<and> (\<forall>fs' code resp.
          dispatch_persist CURR DATA env fs p = (fs', code, resp) \<and> code = COAP_204_CHANGED
          \<and> \<not> fclose_current_fails env \<and> \<not> fclose_history_fails env
          \<and> \<not> names_same_file env CURR DATA
          \<and> storable (body_of p)
          \<and> (body_of p = [] \<longrightarrow> appendable_log fs DATA \<and> timestamp_text (iso env))
          \<longrightarrow> resp = ''UPDATED''
              \<and> fst (serve_persist CURR DATA fs' ers) = fs'
              \<and> length (snd (serve_persist CURR DATA fs' ers)) = length ers
              \<and> (\<forall>(eq, out) \<in> set (zip ers (snd (serve_persist CURR DATA fs' ers))).
                    is_get_sensor (snd eq) \<longrightarrow> out = (COAP_205_CONTENT, body_of p)))"
proof (intro conjI allI impI)
  have p: "req_code p = COAP_PUT" "uri_path p = ''sensor''"
    using assms(1) by (simp_all add: is_put_sensor_def)
  show "dispatch g p = (body_of p, COAP_204_CHANGED, ''UPDATED'')"
    by (rule put_sensor_volatile [OF p(2,1)])
  have len: "length (body_of p) \<le> 1199" using body_of_length [of p] by simp
  note s = serve_no_write [OF assms(2), of "body_of p"]
  show "fst (serve (body_of p) rs) = body_of p" by (simp add: s)
  show "length (snd (serve (body_of p) rs)) = length rs" by (simp add: s)
  show "\<forall>(q, out) \<in> set (zip rs (snd (serve (body_of p) rs))).
          is_get_sensor q \<longrightarrow> out = (COAP_205_CONTENT, body_of p)"
    unfolding s using len by (auto dest!: zip_map_same simp: dispatch_get)
  show "snd (dispatch_persist CURR DATA env fs p) = (COAP_204_CHANGED, ''UPDATED'')"
    if "\<not> fopen_current_fails env \<and> \<not> fprintf_current_fails env
          \<and> \<not> fclose_current_fails env \<and> \<not> fopen_history_fails env
          \<and> \<not> fprintf_history_fails env \<and> \<not> fclose_history_fails env"
    using that
    by (simp add: put_sensor_unfold [OF p] write_current_and_history_def Let_def)
  fix fs' code resp
  assume a: "dispatch_persist CURR DATA env fs p = (fs', code, resp) \<and> code = COAP_204_CHANGED
          \<and> \<not> fclose_current_fails env \<and> \<not> fclose_history_fails env
          \<and> \<not> names_same_file env CURR DATA
          \<and> storable (body_of p)
          \<and> (body_of p = [] \<longrightarrow> appendable_log fs DATA \<and> timestamp_text (iso env))"
  obtain ret fs1 calls where w: "write_current_and_history env fs CURR DATA (body_of p)
      = (ret, fs1, calls)"
    by (cases "write_current_and_history env fs CURR DATA (body_of p)")
  from a w have r: "ret = 0" "fs1 = fs'" "resp = ''UPDATED''"
    by (auto simp: put_sensor_unfold [OF p] split: if_splits)
  show "resp = ''UPDATED''" by (rule r(3))
  have g: "dispatch_persist CURR DATA env' fs' q = (fs', COAP_205_CONTENT, body_of p)"
    if "is_get_sensor q" for env' q
  proof (rule get_after_write)
    show "write_current_and_history env fs CURR DATA (body_of p) = (0, fs', calls)"
      using w r by simp
    show "\<not> fclose_current_fails env" "\<not> names_same_file env CURR DATA"
      "storable (body_of p)"
      "body_of p = [] \<longrightarrow> \<not> fclose_history_fails env \<and> appendable_log fs DATA
         \<and> timestamp_text (iso env)"
      using a by simp_all
    show "c_string (body_of p)" by (rule body_of_c_string)
    show "length (body_of p) \<le> 1023" by (rule body_of_length)
    show "req_code q = COAP_GET" "uri_path q = ''sensor''"
      using that by (simp_all add: is_get_sensor_def)
  qed
  note sp = serve_persist_no_write [OF assms(3), of CURR DATA fs']
  show "fst (serve_persist CURR DATA fs' ers) = fs'" by (simp add: sp)
  show "length (snd (serve_persist CURR DATA fs' ers)) = length ers" by (simp add: sp)
  show "\<forall>(eq, out) \<in> set (zip ers (snd (serve_persist CURR DATA fs' ers))).
          is_get_sensor (snd eq) \<longrightarrow> out = (COAP_205_CONTENT, body_of p)"
    unfolding sp by (auto dest!: zip_map_same simp: g)
qed

theorem put_then_get_sensor_witness:
  "is_put_sensor (request COAP_PUT ''sensor'' (Some [0x32, 0x33, 0x2E, 0x35]))
   \<and> dispatch g_state_init (request COAP_PUT ''sensor'' (Some [0x32, 0x33, 0x2E, 0x35]))
     = (''23.5'', COAP_204_CHANGED, ''UPDATED'')
   \<and> serve ''23.5''
        [request COAP_GET ''sensor'' None, request COAP_POST ''echo'' (Some [0x68, 0x69]),
         request COAP_GET ''sensor'' None]
     = (''23.5'',
        [(COAP_205_CONTENT, ''23.5''), (COAP_205_CONTENT, ''echo: hi''),
         (COAP_205_CONTENT, ''23.5'')])
   \<and> dispatch_persist default_current default_data no_failure Map.empty
        (request COAP_PUT ''sensor'' (Some [0x32, 0x33, 0x2E, 0x35]))
     = ([default_current \<mapsto> ''23.5'' @ [LF],
         default_data \<mapsto> ''2025-01-01T00:00:00Z payload=23.5'' @ [LF]],
        COAP_204_CHANGED, ''UPDATED'')
   \<and> serve_persist default_current default_data
        [default_current \<mapsto> ''23.5'' @ [LF],
         default_data \<mapsto> ''2025-01-01T00:00:00Z payload=23.5'' @ [LF]]
        [(no_failure, request COAP_GET ''sensor'' None),
         (no_failure, request 0x04 ''sensor'' None),
         (current_unwritable, request COAP_GET ''sensor'' None)]
     = ([default_current \<mapsto> ''23.5'' @ [LF],
         default_data \<mapsto> ''2025-01-01T00:00:00Z payload=23.5'' @ [LF]],
        [(COAP_205_CONTENT, ''23.5''), (COAP_404_NOTFOUND, ''NOT_FOUND''),
         (COAP_205_CONTENT, ''23.5'')])"
proof -
  let ?p = "request COAP_PUT ''sensor'' (Some [0x32, 0x33, 0x2E, 0x35])"
  let ?g = "request COAP_GET ''sensor'' None"
  let ?e = "request COAP_POST ''echo'' (Some [0x68, 0x69])"
  let ?d = "request 0x04 ''sensor'' None"
  let ?fs = "[default_current \<mapsto> ''23.5'' @ [LF],
              default_data \<mapsto> ''2025-01-01T00:00:00Z payload=23.5'' @ [LF]]"
  have b: "body_of ?p = ''23.5''" "body_of ?e = ''hi''"
    by (simp_all add: body_of_def cstr_def char_of_u8_def)
  have h1: "is_put_sensor ?p" by (simp add: is_put_sensor_def)
  have h2: "\<forall>q \<in> set [?g, ?e, ?g]. \<not> is_put_sensor q" by (simp add: is_put_sensor_def)
  have h3: "\<forall>eq \<in> set [(no_failure, ?g), (no_failure, ?d), (current_unwritable, ?g)].
      \<not> is_put_sensor (snd eq) \<and> \<not> is_post_echo (snd eq)"
    by (simp add: is_put_sensor_def is_post_echo_def)
  have w: "dispatch_persist default_current default_data no_failure Map.empty ?p
      = (?fs, COAP_204_CHANGED, ''UPDATED'')"
    using b by (simp add: dispatch_persist_def write_current_and_history_def Let_def
        store_def flushed_def names_same_file_def fun_eq_iff)
  have s: "storable ''23.5''" by (simp add: storable_def)
  have g: "is_get_sensor ?g" by (simp add: is_get_sensor_def)
  have v: "serve ''23.5'' [?g, ?e, ?g]
      = (''23.5'', [(COAP_205_CONTENT, ''23.5''), (COAP_205_CONTENT, ''echo: hi''),
                    (COAP_205_CONTENT, ''23.5'')])"
    using b by (simp add: dispatch_def snprintf_s_def)
  have r: "read_last_line ?fs default_current 2048 = Some ''23.5''"
    by (simp add: read_last_line_def last_line_loop.simps fgets_def cstr_def rstrip_def
        snprintf_s_def)
  have t: "serve_persist default_current default_data ?fs
        [(no_failure, ?g), (no_failure, ?d), (current_unwritable, ?g)]
      = (?fs, [(COAP_205_CONTENT, ''23.5''), (COAP_404_NOTFOUND, ''NOT_FOUND''),
               (COAP_205_CONTENT, ''23.5'')])"
    using r by (simp add: dispatch_persist_def snprintf_s_def)
  have "dispatch g_state_init ?p = (body_of ?p, COAP_204_CHANGED, ''UPDATED'')"
    using put_then_get_sensor [OF h1 h2 h3, where g = g_state_init and CURR = default_current
        and DATA = default_data and env = no_failure and fs = Map.empty]
    by (rule conjunct1)
  then have d: "dispatch g_state_init ?p = (''23.5'', COAP_204_CHANGED, ''UPDATED'')"
    by (simp only: b)
  show ?thesis
    using h1 d v w t by (intro conjI)
qed

text \<open>
  C4 as stated fails in the persistent server for a body with a line feed: after PUT
  /sensor with the body \<open>a\<close>, line feed, \<open>b\<close> has answered 2.04, GET /sensor answers with
  the body \<open>b\<close>, the last line of the current-state file.
\<close>

theorem put_with_line_feed_counterexample:
  "body_of \<lparr>req_type = 0, req_tkl = 0, req_code = COAP_PUT, req_mid = 1, req_token = [],
            uri_path = ''sensor'', payload = Some [0x61, 0x0A, 0x62]\<rparr> = [CHR ''a'', LF, CHR ''b'']
   \<and> dispatch_persist ''/opt/coap/current.txt'' ''/opt/coap/data.txt''
        \<lparr>fopen_current_fails = False, fprintf_current_fails = False,
         fclose_current_fails = False, current_short = 0,
         fopen_history_fails = False, fprintf_history_fails = False,
         fclose_history_fails = False, history_short = 0,
         iso = ''2025-01-01T00:00:00Z'', same_file = (\<lambda>p q. False)\<rparr>
        Map.empty
        \<lparr>req_type = 0, req_tkl = 0, req_code = COAP_PUT, req_mid = 1, req_token = [],
            uri_path = ''sensor'', payload = Some [0x61, 0x0A, 0x62]\<rparr>
     = ([''/opt/coap/current.txt'' \<mapsto> [CHR ''a'', LF, CHR ''b'', LF],
         ''/opt/coap/data.txt'' \<mapsto> ''2025-01-01T00:00:00Z payload='' @ [CHR ''a'', LF, CHR ''b'', LF]],
        COAP_204_CHANGED, ''UPDATED'')
   \<and> dispatch_persist ''/opt/coap/current.txt'' ''/opt/coap/data.txt''
        \<lparr>fopen_current_fails = False, fprintf_current_fails = False,
         fclose_current_fails = False, current_short = 0,
         fopen_history_fails = False, fprintf_history_fails = False,
         fclose_history_fails = False, history_short = 0,
         iso = ''2025-01-01T00:00:05Z'', same_file = (\<lambda>p q. False)\<rparr>
        [''/opt/coap/current.txt'' \<mapsto> [CHR ''a'', LF, CHR ''b'', LF],
         ''/opt/coap/data.txt'' \<mapsto> ''2025-01-01T00:00:00Z payload='' @ [CHR ''a'', LF, CHR ''b'', LF]]
        \<lparr>req_type = 0, req_tkl = 0, req_code = COAP_GET, req_mid = 2, req_token = [],
            uri_path = ''sensor'', payload = None\<rparr>
     = ([''/opt/coap/current.txt'' \<mapsto> [CHR ''a'', LF, CHR ''b'', LF],
         ''/opt/coap/data.txt'' \<mapsto> ''2025-01-01T00:00:00Z payload='' @ [CHR ''a'', LF, CHR ''b'', LF]],
        COAP_205_CONTENT, ''b'')"
proof -
  have b: "body_of \<lparr>req_type = 0, req_tkl = 0, req_code = COAP_PUT, req_mid = 1, req_token = [],
            uri_path = ''sensor'', payload = Some [0x61, 0x0A, 0x62]\<rparr> = [CHR ''a'', LF, CHR ''b'']"
    by (simp add: body_of_def cstr_def char_of_u8_def)
  have r: "read_last_line [''/opt/coap/current.txt'' \<mapsto> [CHR ''a'', LF, CHR ''b'', LF],
         ''/opt/coap/data.txt'' \<mapsto> ''2025-01-01T00:00:00Z payload='' @ [CHR ''a'', LF, CHR ''b'', LF]]
       ''/opt/coap/current.txt'' 2048 = Some ''b''"
    by (simp add: read_last_line_def last_line_loop.simps fgets_def cstr_def rstrip_def
        snprintf_s_def)
  show ?thesis
    using b r
    by (simp add: dispatch_persist_def write_current_and_history_def snprintf_s_def Let_def
        store_def flushed_def names_same_file_def fun_eq_iff)
qed

text \<open>
  After such a call on a full disk, PUT /sensor has answered 2.04 and GET /sensor finds
  no line in either file.
\<close>

lemma put_on_full_disk_example:
  "dispatch_persist default_current default_data disk_full Map.empty
        (request COAP_PUT ''sensor'' (Some [0x32, 0x33, 0x2E, 0x35]))
     = ([default_current \<mapsto> [], default_data \<mapsto> []], COAP_204_CHANGED, ''UPDATED'')
   \<and> dispatch_persist default_current default_data no_failure
        [default_current \<mapsto> [], default_data \<mapsto> []] (request COAP_GET ''sensor'' None)
     = ([default_current \<mapsto> [], default_data \<mapsto> []], COAP_205_CONTENT, ''NO_DATA'')"
proof -
  have b: "body_of (request COAP_PUT ''sensor'' (Some [0x32, 0x33, 0x2E, 0x35])) = ''23.5''"
    by (simp add: body_of_def cstr_def char_of_u8_def)
  have r: "read_last_line [default_current \<mapsto> [], default_data \<mapsto> []] default_current 2048 = None"
    "read_last_line [default_current \<mapsto> [], default_data \<mapsto> []] default_data 2048 = None"
    by (simp_all add: read_last_line_def last_line_loop.simps fgets_def)
  show ?thesis
    using b r
    by (simp add: dispatch_persist_def write_current_and_history_def Let_def store_def
        flushed_def names_same_file_def fun_eq_iff)
qed

text \<open>
  When the two paths name one file, the history entry is appended to the value just
  written, and GET /sensor answers with that entry, the last line of the file.
\<close>

lemma put_with_one_file_example:
  "dispatch_persist default_current respelled_current history_is_current Map.empty
        (request COAP_PUT ''sensor'' (Some [0x32, 0x33, 0x2E, 0x35]))
     = ([default_current \<mapsto> ''23.5'' @ [LF] @ ''2025-01-01T00:00:00Z payload=23.5'' @ [LF],
         respelled_current \<mapsto> ''23.5'' @ [LF] @ ''2025-01-01T00:00:00Z payload=23.5'' @ [LF]],
        COAP_204_CHANGED, ''UPDATED'')
   \<and> dispatch_persist default_current respelled_current no_failure
        [default_current \<mapsto> ''23.5'' @ [LF] @ ''2025-01-01T00:00:00Z payload=23.5'' @ [LF],
         respelled_current \<mapsto> ''23.5'' @ [LF] @ ''2025-01-01T00:00:00Z payload=23.5'' @ [LF]]
        (request COAP_GET ''sensor'' None)
     = ([default_current \<mapsto> ''23.5'' @ [LF] @ ''2025-01-01T00:00:00Z payload=23.5'' @ [LF],
         respelled_current \<mapsto> ''23.5'' @ [LF] @ ''2025-01-01T00:00:00Z payload=23.5'' @ [LF]],
        COAP_205_CONTENT, ''2025-01-01T00:00:00Z payload=23.5'')"
proof -
  have b: "body_of (request COAP_PUT ''sensor'' (Some [0x32, 0x33, 0x2E, 0x35])) = ''23.5''"
    by (simp add: body_of_def cstr_def char_of_u8_def)
  have r: "read_last_line
       [default_current \<mapsto> ''23.5'' @ [LF] @ ''2025-01-01T00:00:00Z payload=23.5'' @ [LF],
        respelled_current \<mapsto> ''23.5'' @ [LF] @ ''2025-01-01T00:00:00Z payload=23.5'' @ [LF]]
       default_current 2048 = Some ''2025-01-01T00:00:00Z payload=23.5''"
    by (simp add: read_last_line_def last_line_loop.simps fgets_def cstr_def rstrip_def
        snprintf_s_def)
  have w: "write_current_and_history history_is_current Map.empty default_current
        respelled_current ''23.5''
     = (0, [default_current \<mapsto> ''23.5'' @ [LF] @ ''2025-01-01T00:00:00Z payload=23.5'' @ [LF],
            respelled_current \<mapsto> ''23.5'' @ [LF] @ ''2025-01-01T00:00:00Z payload=23.5'' @ [LF]],
        [Fopen default_current ''w'', Fprintf default_current (''23.5'' @ [LF]),
         Fclose default_current, Fopen respelled_current ''a'',
         Fprintf respelled_current (''2025-01-01T00:00:00Z payload=23.5'' @ [LF]),
         Fclose respelled_current])"
    by (simp add: write_current_and_history_def Let_def store_def flushed_def
        names_same_file_def fun_eq_iff)
  show ?thesis
    using b r w by (simp add: dispatch_persist_def snprintf_s_def)
qed

end
